theory Spec2Isabelle
  imports Complex_Main "HOL-Library.AList" "HOL-Library.Multiset"
begin

section \<open>HttpClient: performance counters and retry\<close>

text \<open>
  The HTTP client keeps three counters that the axios interceptors update on every
  attempt. The network is a function from the number of requests this client has already
  issued to what the next request settles with; the field \<open>sent\<close> counts the calls of
  \<open>client.request\<close> and is the only field that is not a member of the class.
  JavaScript numbers are modelled as integers (counters as naturals) and the quotients of
  \<open>getMetrics\<close> as rationals.
\<close>

record HttpConfig =
  retries :: int

record AxiosError =
  err_message :: "string option"
  err_code :: "string option"
  err_status :: "int option"
  err_elapsed :: "int option"

datatype 'a attempt = Fulfilled 'a "int option" | Rejected AxiosError

record HttpClient =
  requestCount :: nat
  errorCount :: nat
  totalResponseTime :: int
  sent :: nat

record ApiError =
  api_message :: string
  api_code :: string
  api_status :: "int option"
  api_retryable :: bool

record HttpMetrics =
  m_requestCount :: nat
  m_errorCount :: nat
  m_errorRate :: rat
  m_averageResponseTime :: rat

definition newHttpClient :: HttpClient where
  "newHttpClient = \<lparr>requestCount = 0, errorCount = 0, totalResponseTime = 0, sent = 0\<rparr>"

text \<open>\<open>updateMetrics(response)\<close>: the success handler of the response interceptor.\<close>

definition updateMetrics :: "int option \<Rightarrow> HttpClient \<Rightarrow> HttpClient" where
  "updateMetrics el c =
     (let c1 = c\<lparr>requestCount := requestCount c + 1\<rparr>
      in case el of
           Some t \<Rightarrow> c1\<lparr>totalResponseTime := totalResponseTime c1 + t\<rparr>
         | None \<Rightarrow> c1)"

text \<open>The response interceptor: success handler and error handler.\<close>

definition response_interceptor :: "'a attempt \<Rightarrow> HttpClient \<Rightarrow> HttpClient" where
  "response_interceptor a c =
     (case a of
        Fulfilled d el \<Rightarrow> updateMetrics el c
      | Rejected e \<Rightarrow>
          (let c1 = c\<lparr>errorCount := errorCount c + 1\<rparr>
           in case err_elapsed e of
                Some t \<Rightarrow> c1\<lparr>totalResponseTime := totalResponseTime c1 + t\<rparr>
              | None \<Rightarrow> c1))"

text \<open>\<open>this.client.request(...)\<close>: one attempt on the wire, seen through the interceptors.\<close>

definition client_request :: "(nat \<Rightarrow> 'a attempt) \<Rightarrow> HttpClient \<Rightarrow> 'a attempt \<times> HttpClient" where
  "client_request net c =
     (net (sent c), response_interceptor (net (sent c)) (c\<lparr>sent := sent c + 1\<rparr>))"

definition transient_code :: "string option \<Rightarrow> bool" where
  "transient_code cd =
     (cd = Some ''ECONNRESET'' \<or> cd = Some ''ETIMEDOUT'' \<or>
      cd = Some ''ECONNREFUSED'' \<or> cd = Some ''ENOTFOUND'')"

definition shouldRetry :: "HttpConfig \<Rightarrow> AxiosError \<Rightarrow> nat \<Rightarrow> bool" where
  "shouldRetry cfg e retryCount =
     (if int retryCount \<ge> retries cfg then False
      else if transient_code (err_code e) then True
      else if (case err_status e of Some s \<Rightarrow> s \<ge> 500 | None \<Rightarrow> False) then True
      else if err_status e = Some 429 then True
      else False)"

definition createApiError :: "HttpConfig \<Rightarrow> AxiosError \<Rightarrow> ApiError" where
  "createApiError cfg e =
     \<lparr>api_message = (case err_message e of
                       Some m \<Rightarrow> if m = [] then ''Unknown error occurred'' else m
                     | None \<Rightarrow> ''Unknown error occurred''),
      api_code = (case err_code e of
                    Some cd \<Rightarrow> if cd = [] then ''UNKNOWN_ERROR'' else cd
                  | None \<Rightarrow> ''UNKNOWN_ERROR''),
      api_status = err_status e,
      api_retryable = shouldRetry cfg e 0\<rparr>"

function requestWithRetry ::
  "HttpConfig \<Rightarrow> (nat \<Rightarrow> 'a attempt) \<Rightarrow> nat \<Rightarrow> HttpClient \<Rightarrow> (ApiError + 'a) \<times> HttpClient" where
  "requestWithRetry cfg net retryCount c =
     (case client_request net c of
        (Fulfilled d el, c') \<Rightarrow> (Inr d, c')
      | (Rejected e, c') \<Rightarrow>
          if shouldRetry cfg e retryCount
          then requestWithRetry cfg net (retryCount + 1) c'
          else (Inl (createApiError cfg e), c'))"
  by pat_completeness auto
termination
  by (relation "measure (\<lambda>(cfg, net, retryCount, c). nat (retries cfg - int retryCount))")
     (auto simp: shouldRetry_def split: if_splits)

declare requestWithRetry.simps [simp del]

definition getMetrics :: "HttpClient \<Rightarrow> HttpMetrics" where
  "getMetrics c =
     \<lparr>m_requestCount = requestCount c,
      m_errorCount = errorCount c,
      m_errorRate = (if requestCount c > 0 then of_nat (errorCount c) / of_nat (requestCount c) else 0),
      m_averageResponseTime =
        (if requestCount c > 0 then of_int (totalResponseTime c) / of_nat (requestCount c) else 0)\<rparr>"


text \<open>Inputs used in the examples below: the network's answers to successive requests.\<close>

definition status_error :: "int \<Rightarrow> AxiosError" where
  "status_error s =
     \<lparr>err_message = Some ''Request failed'', err_code = Some ''ERR_BAD_RESPONSE'',
      err_status = Some s, err_elapsed = Some 7\<rparr>"

definition fail_twice_then_ok :: "nat \<Rightarrow> unit attempt" where
  "fail_twice_then_ok n = (if n < 2 then Rejected (status_error 500) else Fulfilled () (Some 5))"

definition always_status :: "int \<Rightarrow> nat \<Rightarrow> unit attempt" where
  "always_status s n = Rejected (status_error s)"

definition ok_then_404 :: "nat \<Rightarrow> unit attempt" where
  "ok_then_404 n = (if n = 0 then Fulfilled () (Some 5) else Rejected (status_error 404))"

text \<open>What an attempt adds to \<open>totalResponseTime\<close>, and the failed attempts in a range.\<close>

definition elapsed_of :: "'a attempt \<Rightarrow> int" where
  "elapsed_of a =
     (case a of
        Fulfilled d el \<Rightarrow> (case el of Some t \<Rightarrow> t | None \<Rightarrow> 0)
      | Rejected e \<Rightarrow> (case err_elapsed e of Some t \<Rightarrow> t | None \<Rightarrow> 0))"

fun is_rejected :: "'a attempt \<Rightarrow> bool" where
  "is_rejected (Rejected e) = True"
| "is_rejected (Fulfilled d el) = False"

definition rejected_attempts :: "(nat \<Rightarrow> 'a attempt) \<Rightarrow> nat \<Rightarrow> nat \<Rightarrow> nat" where
  "rejected_attempts net a b = length (filter (\<lambda>n. is_rejected (net n)) [a..<b])"

section \<open>AdapterManager: aggregate metrics\<close>

text \<open>
  \<open>AdapterManager.updateMetrics\<close> keeps a running record. Only the fields it writes are
  modelled; \<open>averageResponseTime\<close> and \<open>errorRate\<close> are rationals.
\<close>

record PerformanceMetrics =
  pm_requestCount :: nat
  pm_averageResponseTime :: rat
  pm_errorRate :: rat

definition initializeMetrics :: PerformanceMetrics where
  "initializeMetrics = \<lparr>pm_requestCount = 0, pm_averageResponseTime = 0, pm_errorRate = 0\<rparr>"

definition am_updateMetrics :: "string \<Rightarrow> rat \<Rightarrow> bool \<Rightarrow> PerformanceMetrics \<Rightarrow> PerformanceMetrics" where
  "am_updateMetrics operation responseTime success m =
     (let m1 = m\<lparr>pm_requestCount := pm_requestCount m + 1\<rparr>
      in if success
         then m1\<lparr>pm_averageResponseTime :=
                   (pm_averageResponseTime m1 * (of_nat (pm_requestCount m1) - 1) + responseTime)
                   / of_nat (pm_requestCount m1)\<rparr>
         else (let errorCount' = \<lfloor>of_nat (pm_requestCount m1) * pm_errorRate m1\<rfloor> + 1
               in m1\<lparr>pm_errorRate := of_int errorCount' / of_nat (pm_requestCount m1)\<rparr>))"

section \<open>Semaphore\<close>

text \<open>
  The counting semaphore of the batch operations. The wait queue holds the \<open>resolve\<close>
  callbacks of the suspended callers; a callback is identified with the caller it resumes.
  \<open>acquire\<close> answers whether its promise is already resolved; \<open>release\<close> answers which
  waiter, if any, it has resumed. Both bodies run to completion without suspending, so a
  history of the semaphore is a list of calls.
\<close>

record 'c Semaphore =
  permits :: int
  waitQueue :: "'c list"

definition newSemaphore :: "int \<Rightarrow> 'c Semaphore" where
  "newSemaphore n = \<lparr>permits = n, waitQueue = []\<rparr>"

definition acquire :: "'c \<Rightarrow> 'c Semaphore \<Rightarrow> bool \<times> 'c Semaphore" where
  "acquire caller s =
     (if permits s > 0 then (True, s\<lparr>permits := permits s - 1\<rparr>)
      else (False, s\<lparr>waitQueue := waitQueue s @ [caller]\<rparr>))"

definition release :: "'c Semaphore \<Rightarrow> 'c option \<times> 'c Semaphore" where
  "release s =
     (let s1 = s\<lparr>permits := permits s + 1\<rparr>
      in case waitQueue s1 of
           [] \<Rightarrow> (None, s1)
         | w # ws \<Rightarrow> (Some w, s1\<lparr>waitQueue := ws, permits := permits s1 - 1\<rparr>))"

text \<open>
  A history: the semaphore, the callers whose \<open>acquire\<close> has resolved (in the order in
  which they were admitted), and the number of \<open>release\<close> calls so far.
\<close>

datatype 'c sem_call = Acquire 'c | Release

record 'c sem_history =
  sem :: "'c Semaphore"
  admitted :: "'c list"
  released :: nat

definition sem_start :: "int \<Rightarrow> 'c sem_history" where
  "sem_start n = \<lparr>sem = newSemaphore n, admitted = [], released = 0\<rparr>"

fun sem_step :: "'c sem_history \<Rightarrow> 'c sem_call \<Rightarrow> 'c sem_history" where
  "sem_step h (Acquire caller) =
     (case acquire caller (sem h) of
        (True, s') \<Rightarrow> h\<lparr>sem := s', admitted := admitted h @ [caller]\<rparr>
      | (False, s') \<Rightarrow> h\<lparr>sem := s'\<rparr>)"
| "sem_step h Release =
     (case release (sem h) of
        (None, s') \<Rightarrow> h\<lparr>sem := s', released := released h + 1\<rparr>
      | (Some w, s') \<Rightarrow> h\<lparr>sem := s', admitted := admitted h @ [w], released := released h + 1\<rparr>)"

definition sem_run :: "int \<Rightarrow> 'c sem_call list \<Rightarrow> 'c sem_history" where
  "sem_run n calls = foldl sem_step (sem_start n) calls"

definition outstanding :: "'c sem_history \<Rightarrow> int" where
  "outstanding h = int (length (admitted h)) - int (released h)"

fun acquirers :: "'c sem_call list \<Rightarrow> 'c list" where
  "acquirers [] = []"
| "acquirers (Acquire caller # cs) = caller # acquirers cs"
| "acquirers (Release # cs) = acquirers cs"

text \<open>The invariant of a history that started with \<open>n\<close> permits.\<close>

definition sem_inv :: "int \<Rightarrow> 'c sem_call list \<Rightarrow> 'c sem_history \<Rightarrow> bool" where
  "sem_inv n calls h \<longleftrightarrow>
     0 \<le> permits (sem h) \<and> permits (sem h) + outstanding h = n \<and>
     (permits (sem h) > 0 \<and> waitQueue (sem h) = [] \<or> permits (sem h) = 0) \<and>
     admitted h @ waitQueue (sem h) = acquirers calls"

section \<open>MemoryCache: the in-process tier\<close>

text \<open>
  The two JavaScript \<open>Map\<close>s of the cache are association lists in insertion order:
  \<open>Map.set\<close> is \<open>AList.update\<close> (in place for a key that is present, at the end for a new
  one), \<open>Map.delete\<close> is \<open>AList.delete\<close>, \<open>Map.get\<close> is \<open>map_of\<close>, and \<open>Map.size\<close> is
  the length of the list. \<open>Date.now()\<close> is a parameter of every operation that reads the
  clock. An optional \<open>ttl\<close> argument is an \<open>int option\<close>.
\<close>

record CacheConfig =
  cfg_ttl :: int
  maxSize :: int
  enableL1 :: bool
  enableL2 :: bool

record 'v CacheItem =
  item_key :: string
  item_value :: 'v
  item_ttl :: int
  createdAt :: int
  accessCount :: nat
  lastAccessed :: int

record 'v MemoryCache =
  cache :: "(string \<times> 'v CacheItem) list"
  accessOrder :: "(string \<times> nat) list"
  config :: CacheConfig
  hits :: nat
  misses :: nat
  accessCounter :: nat

definition newMemoryCache :: "CacheConfig \<Rightarrow> 'v MemoryCache" where
  "newMemoryCache cfg =
     \<lparr>cache = [], accessOrder = [], config = cfg, hits = 0, misses = 0, accessCounter = 0\<rparr>"

definition isExpired :: "int \<Rightarrow> 'v CacheItem \<Rightarrow> bool" where
  "isExpired now item \<longleftrightarrow> now - createdAt item > item_ttl item"

definition mc_delete :: "string \<Rightarrow> 'v MemoryCache \<Rightarrow> bool \<times> 'v MemoryCache" where
  "mc_delete key s =
     (map_of (cache s) key \<noteq> None,
      s\<lparr>accessOrder := AList.delete key (accessOrder s), cache := AList.delete key (cache s)\<rparr>)"

definition mc_get :: "int \<Rightarrow> string \<Rightarrow> 'v MemoryCache \<Rightarrow> 'v option \<times> 'v MemoryCache" where
  "mc_get now key s =
     (case map_of (cache s) key of
        None \<Rightarrow> (None, s\<lparr>misses := misses s + 1\<rparr>)
      | Some item \<Rightarrow>
          if isExpired now item
          then (let s1 = snd (mc_delete key s) in (None, s1\<lparr>misses := misses s1 + 1\<rparr>))
          else (Some (item_value item),
                s\<lparr>cache := AList.update key
                              (item\<lparr>accessCount := accessCount item + 1, lastAccessed := now\<rparr>)
                              (cache s),
                  accessOrder := AList.update key (accessCounter s + 1) (accessOrder s),
                  accessCounter := accessCounter s + 1,
                  hits := hits s + 1\<rparr>))"

text \<open>
  \<open>evictLeastUsed\<close>: the loop keeps the first key with the smallest order seen so far
  (\<open>lruOrder\<close> starts at \<open>Infinity\<close>, here \<open>None\<close>), and the final test \<open>if (lruKey)\<close> is
  a truthiness test: it fails for \<open>null\<close> and for the empty string.
\<close>

definition lru_step ::
  "string option \<times> nat option \<Rightarrow> string \<times> nat \<Rightarrow> string option \<times> nat option" where
  "lru_step acc entry =
     (case acc of (lruKey, lruOrder) \<Rightarrow>
        (case entry of (key, order') \<Rightarrow>
           if (case lruOrder of None \<Rightarrow> True | Some lo \<Rightarrow> order' < lo)
           then (Some key, Some order')
           else (lruKey, lruOrder)))"

definition evictLeastUsed :: "'v MemoryCache \<Rightarrow> 'v MemoryCache" where
  "evictLeastUsed s =
     (case fst (foldl lru_step (None, None) (accessOrder s)) of
        None \<Rightarrow> s
      | Some lruKey \<Rightarrow> if lruKey \<noteq> [] then snd (mc_delete lruKey s) else s)"

definition mc_set :: "int \<Rightarrow> string \<Rightarrow> 'v \<Rightarrow> int option \<Rightarrow> 'v MemoryCache \<Rightarrow> 'v MemoryCache" where
  "mc_set now key v ttl s =
     (let itemTtl = (case ttl of
                       Some t \<Rightarrow> if t = 0 then cfg_ttl (config s) else t
                     | None \<Rightarrow> cfg_ttl (config s));
          s1 = (if int (length (cache s)) \<ge> maxSize (config s) then evictLeastUsed s else s);
          item = \<lparr>item_key = key, item_value = v, item_ttl = itemTtl, createdAt = now,
                  accessCount = 1, lastAccessed = now\<rparr>
      in s1\<lparr>cache := AList.update key item (cache s1),
            accessOrder := AList.update key (accessCounter s1 + 1) (accessOrder s1),
            accessCounter := accessCounter s1 + 1\<rparr>)"

definition mc_clear :: "'v MemoryCache \<Rightarrow> 'v MemoryCache" where
  "mc_clear s = s\<lparr>cache := [], accessOrder := [], accessCounter := 0\<rparr>"

definition mc_has :: "int \<Rightarrow> string \<Rightarrow> 'v MemoryCache \<Rightarrow> bool" where
  "mc_has now key s =
     (case map_of (cache s) key of None \<Rightarrow> False | Some item \<Rightarrow> \<not> isExpired now item)"

text \<open>\<open>cleanupExpired\<close>, the body of the periodic sweep.\<close>

definition cleanupExpired :: "int \<Rightarrow> 'v MemoryCache \<Rightarrow> 'v MemoryCache" where
  "cleanupExpired now s =
     (let expiredKeys =
            map fst (filter (\<lambda>entry. now - createdAt (snd entry) > item_ttl (snd entry)) (cache s))
      in foldl (\<lambda>s' key. snd (mc_delete key s')) s expiredKeys)"

text \<open>
  A history of a cache: calls with the clock reading at which each one runs.
\<close>

datatype 'v cache_call =
  Get string | Set string 'v "int option" | Delete string | Has string | Clear | Sweep

fun mc_step :: "'v MemoryCache \<Rightarrow> int \<times> 'v cache_call \<Rightarrow> 'v MemoryCache" where
  "mc_step s (now, Get key) = snd (mc_get now key s)"
| "mc_step s (now, Set key v ttl) = mc_set now key v ttl s"
| "mc_step s (now, Delete key) = snd (mc_delete key s)"
| "mc_step s (now, Has key) = s"
| "mc_step s (now, Clear) = mc_clear s"
| "mc_step s (now, Sweep) = cleanupExpired now s"

definition mc_run :: "'v MemoryCache \<Rightarrow> (int \<times> 'v cache_call) list \<Rightarrow> 'v MemoryCache" where
  "mc_run s calls = foldl mc_step s calls"

fun is_set_of :: "string \<Rightarrow> 'v cache_call \<Rightarrow> bool" where
  "is_set_of key (Set key' v ttl) = (key = key')"
| "is_set_of key c = False"

section \<open>CacheManager and the adapter's cache operations\<close>

text \<open>
  \<open>CacheManager\<close> holds the in-process tier and the configuration it was built from. Its
  field \<open>l2Cache\<close> is never assigned (the constructor leaves the initialisation as a
  TODO), so every branch guarded by \<open>this.config.enableL2 && this.l2Cache\<close> is dead; those
  branches are left out. The loop of \<open>mset\<close> is synchronous, and its \<open>set\<close> calls are given
  one clock reading.
\<close>

record 'v CacheManager =
  l1Cache :: "'v MemoryCache"
  cm_config :: CacheConfig

definition newCacheManager :: "CacheConfig \<Rightarrow> 'v CacheManager" where
  "newCacheManager cfg = \<lparr>l1Cache = newMemoryCache cfg, cm_config = cfg\<rparr>"


definition cm_mset ::
  "int \<Rightarrow> (string \<times> 'v) list \<Rightarrow> int option \<Rightarrow> 'v CacheManager \<Rightarrow> 'v CacheManager" where
  "cm_mset now items ttl cm =
     (if enableL1 (cm_config cm)
      then cm\<lparr>l1Cache := foldl (\<lambda>s entry. mc_set now (fst entry) (snd entry) ttl s)
                                (l1Cache cm) items\<rparr>
      else cm)"

text \<open>
  \<open>warmup\<close>: an entry is a key, a value and an optional \<open>ttl\<close>. \<open>!commonTtl\<close> holds for
  \<open>undefined\<close> and for 0.
\<close>

definition falsy_ttl :: "int option \<Rightarrow> bool" where
  "falsy_ttl t \<longleftrightarrow> (t = None \<or> t = Some 0)"

definition warmup_step ::
  "(string \<times> 'v) list \<times> int option \<Rightarrow> string \<times> 'v \<times> int option \<Rightarrow>
   (string \<times> 'v) list \<times> int option" where
  "warmup_step acc item =
     (case acc of (itemMap, commonTtl) \<Rightarrow>
        (case item of (key, v, ttl) \<Rightarrow>
           (AList.update key v itemMap, if falsy_ttl commonTtl then ttl else commonTtl)))"

definition cm_warmup ::
  "int \<Rightarrow> (string \<times> 'v \<times> int option) list \<Rightarrow> 'v CacheManager \<Rightarrow> 'v CacheManager" where
  "cm_warmup now items cm =
     (case foldl warmup_step ([], None) items of
        (itemMap, commonTtl) \<Rightarrow> cm_mset now itemMap commonTtl cm)"



section \<open>Auxiliary notions for the cache properties\<close>

text \<open>
  \<open>same_or_gone key s s'\<close>: in \<open>s'\<close> the entry of \<open>key\<close> is absent, or it has the creation
  time and the ttl it had in \<open>s\<close>. \<open>gone_at t key s\<close>: at time \<open>t\<close> the entry of \<open>key\<close> is
  absent or expired.
\<close>

definition same_or_gone :: "string \<Rightarrow> 'v MemoryCache \<Rightarrow> 'v MemoryCache \<Rightarrow> bool" where
  "same_or_gone key s s' \<longleftrightarrow>
     map_of (cache s') key = None \<or>
     (\<exists>it it'. map_of (cache s) key = Some it \<and> map_of (cache s') key = Some it' \<and>
        createdAt it' = createdAt it \<and> item_ttl it' = item_ttl it)"

definition gone_at :: "int \<Rightarrow> string \<Rightarrow> 'v MemoryCache \<Rightarrow> bool" where
  "gone_at t key s \<longleftrightarrow>
     (case map_of (cache s) key of None \<Rightarrow> True | Some it \<Rightarrow> t - createdAt it > item_ttl it)"

text \<open>
  The ttl an entry is stored with (\<open>ttl || this.config.ttl\<close>), the ttl shared by a warmup
  (the first ttl in list order that is set and not 0, else the default), the same
  following the words of the specification (the first ttl that is set), and the map that
  \<open>warmup\<close> builds from its entries.
\<close>

definition shared_ttl :: "(string \<times> 'v \<times> int option) list \<Rightarrow> int \<Rightarrow> int" where
  "shared_ttl items dflt =
     (case List.find (\<lambda>item. \<not> falsy_ttl (snd (snd item))) items of
        Some (key, v, Some t) \<Rightarrow> t
      | _ \<Rightarrow> dflt)"

definition spec_shared_ttl :: "(string \<times> 'v \<times> int option) list \<Rightarrow> int \<Rightarrow> int" where
  "spec_shared_ttl items dflt =
     (case List.find (\<lambda>item. snd (snd item) \<noteq> None) items of
        Some (key, v, Some t) \<Rightarrow> t
      | _ \<Rightarrow> dflt)"

definition effective_ttl :: "int option \<Rightarrow> int \<Rightarrow> int" where
  "effective_ttl ttl dflt = (case ttl of Some t \<Rightarrow> if t = 0 then dflt else t | None \<Rightarrow> dflt)"

definition item_map :: "(string \<times> 'v \<times> int option) list \<Rightarrow> (string \<times> 'v) list" where
  "item_map items = fst (foldl warmup_step ([], None) items)"

text \<open>
  Well-formed caches: both maps have distinct keys, the same keys, distinct access orders,
  and no access order above the counter.
\<close>

definition mc_wf :: "'v MemoryCache \<Rightarrow> bool" where
  "mc_wf s \<longleftrightarrow>
     distinct (map fst (cache s)) \<and> distinct (map fst (accessOrder s)) \<and>
     set (map fst (cache s)) = set (map fst (accessOrder s)) \<and>
     distinct (map snd (accessOrder s)) \<and>
     list_all (\<lambda>entry. snd entry \<le> accessCounter s) (accessOrder s)"

text \<open>
  Calls whose \<open>set\<close> keys are non-empty strings; the capacity invariant of a cache of
  capacity \<open>n\<close>; and \<open>shrinks s s'\<close>: \<open>s'\<close> has the configuration of \<open>s\<close>, no more entries
  and no new key.
\<close>

fun nonempty_key :: "'v cache_call \<Rightarrow> bool" where
  "nonempty_key (Set key v ttl) = (key \<noteq> [])"
| "nonempty_key c = True"

definition cap_inv :: "int \<Rightarrow> 'v MemoryCache \<Rightarrow> bool" where
  "cap_inv n s \<longleftrightarrow>
     mc_wf s \<and> maxSize (config s) = n \<and> int (length (cache s)) \<le> n \<and>
     [] \<notin> fst ` set (cache s)"

definition shrinks :: "'v MemoryCache \<Rightarrow> 'v MemoryCache \<Rightarrow> bool" where
  "shrinks s s' \<longleftrightarrow>
     config s' = config s \<and> length (cache s') \<le> length (cache s) \<and>
     fst ` set (cache s') \<subseteq> fst ` set (cache s)"

text \<open>
  Scenarios: a list of \<open>set\<close> calls (time, key, value, ttl) and its keys; a list of
  inserts each preceded by a read of a key that is kept hot; and the invariant of the
  latter, that the hot key stays stored with the creation time and ttl of \<open>it\<close> in a
  well-formed cache of capacity at least 2.
\<close>

definition set_calls :: "(int \<times> string \<times> 'v \<times> int option) list \<Rightarrow> (int \<times> 'v cache_call) list" where
  "set_calls entries = map (\<lambda>(now, key, v, ttl). (now, Set key v ttl)) entries"

definition entry_keys :: "(int \<times> string \<times> 'v \<times> int option) list \<Rightarrow> string list" where
  "entry_keys entries = map (\<lambda>(now, key, v, ttl). key) entries"

definition hot_calls ::
  "string \<Rightarrow> (int \<times> int \<times> string \<times> 'v \<times> int option) list \<Rightarrow> (int \<times> 'v cache_call) list" where
  "hot_calls hot steps =
     concat (map (\<lambda>(tget, tset, key, v, ttl). [(tget, Get hot), (tset, Set key v ttl)]) steps)"

definition hot_inv :: "string \<Rightarrow> 'v CacheItem \<Rightarrow> 'v MemoryCache \<Rightarrow> bool" where
  "hot_inv hot it s \<longleftrightarrow>
     mc_wf s \<and> 2 \<le> maxSize (config s) \<and>
     (\<exists>it'. map_of (cache s) hot = Some it' \<and> createdAt it' = createdAt it \<and>
            item_ttl it' = item_ttl it)"

text \<open>Inputs used in the examples below.\<close>

definition ex_cfg :: CacheConfig where
  "ex_cfg = \<lparr>cfg_ttl = 1000, maxSize = 2, enableL1 = True, enableL2 = False\<rparr>"

definition ex_item :: "nat CacheItem" where
  "ex_item = \<lparr>item_key = ''k'', item_value = 1, item_ttl = 100, createdAt = 0,
               accessCount = 1, lastAccessed = 0\<rparr>"

definition ex_cache :: "nat MemoryCache" where
  "ex_cache = \<lparr>cache = [(''k'', ex_item)], accessOrder = [(''k'', 1)], config = ex_cfg,
                hits = 0, misses = 0, accessCounter = 1\<rparr>"


definition ex_cfg_cap :: "int \<Rightarrow> CacheConfig" where
  "ex_cfg_cap n = \<lparr>cfg_ttl = 1000, maxSize = n, enableL1 = True, enableL2 = False\<rparr>"

definition ex_full :: "nat MemoryCache" where
  "ex_full = mc_run (newMemoryCache ex_cfg) [(0, Set ''a'' 1 None), (1, Set ''b'' 2 None)]"

definition ex_hot_item :: "nat CacheItem" where
  "ex_hot_item = \<lparr>item_key = ''a'', item_value = 1, item_ttl = 1000, createdAt = 0,
                   accessCount = 1, lastAccessed = 0\<rparr>"

section \<open>Batch operations and the cross-platform search\<close>

text \<open>
  The batch operations start one asynchronous task per input item. Every task first
  awaits \<open>semaphore.acquire()\<close>, then awaits its call, records the outcome at its own
  index, and releases the semaphore in \<open>finally\<close>. The tasks run on one event loop: the
  bodies between two \<open>await\<close>s are atomic, and the only freedom is the order in which the
  calls in flight settle. That order is a parameter: \<open>pick n\<close> chooses, at the \<open>n\<close>-th
  settlement, which of the calls in flight settles (modulo their number). What a call
  settles with is a parameter too (\<open>Inl\<close> when it throws).

  \<open>results[index] = x\<close> on a JavaScript array extends the array with holes when the index
  is beyond its length; an array is a list of options, \<open>None\<close> being a hole.
\<close>

definition js_assign :: "'a option list \<Rightarrow> nat \<Rightarrow> 'a \<Rightarrow> 'a option list" where
  "js_assign xs i v =
     (if i < length xs then xs[i := Some v]
      else xs @ replicate (i - length xs) None @ [Some v])"


text \<open>
  The state of a gated batch: the semaphore (its queue holds the suspended tasks), the
  tasks whose call is in flight, and what the task bodies have accumulated so far.
\<close>

record ('t, 'a) batch_state =
  gate :: "'t Semaphore"
  inflight :: "'t list"
  acc :: 'a

text \<open>
  The synchronous part of \<open>items.map(async ...)\<close>: each task in turn calls \<open>acquire\<close>; an
  admitted task starts its call, the others are suspended in the queue.
\<close>

definition start_task :: "('t, 'a) batch_state \<Rightarrow> 't \<Rightarrow> ('t, 'a) batch_state" where
  "start_task st task =
     (case acquire task (gate st) of
        (True, g) \<Rightarrow> st\<lparr>gate := g, inflight := inflight st @ [task]\<rparr>
      | (False, g) \<Rightarrow> st\<lparr>gate := g\<rparr>)"

text \<open>
  One settlement: the call of the task at position \<open>j\<close> settles, its body \<open>body\<close> records
  the outcome, and \<open>finally\<close> releases the semaphore, which may resume the longest-waiting
  task; that task then starts its call.
\<close>

definition settle_task ::
  "('t \<Rightarrow> 'a \<Rightarrow> 'a) \<Rightarrow> nat \<Rightarrow> ('t, 'a) batch_state \<Rightarrow> ('t, 'a) batch_state" where
  "settle_task body j st =
     (let task = inflight st ! j;
          others = take j (inflight st) @ drop (Suc j) (inflight st);
          a = body task (acc st)
      in case release (gate st) of
           (None, g) \<Rightarrow> \<lparr>gate = g, inflight = others, acc = a\<rparr>
         | (Some w, g) \<Rightarrow> \<lparr>gate = g, inflight = others @ [w], acc = a\<rparr>)"

text \<open>
  \<open>await Promise.all(promises)\<close>: settlements go on while a call is in flight. When none is
  in flight the batch is complete if no task is suspended; with tasks still suspended
  nothing can ever resume them, the promise never settles, and the result is \<open>None\<close>.
\<close>

function drain ::
  "(nat \<Rightarrow> nat) \<Rightarrow> nat \<Rightarrow> ('t \<Rightarrow> 'a \<Rightarrow> 'a) \<Rightarrow> ('t, 'a) batch_state \<Rightarrow> 'a option" where
  "drain pick n body st =
     (if inflight st = []
      then (if waitQueue (gate st) = [] then Some (acc st) else None)
      else drain pick (Suc n) body (settle_task body (pick n mod length (inflight st)) st))"
  by pat_completeness auto
termination
proof (relation "measure (\<lambda>(pick, n, body, st). length (inflight st) + length (waitQueue (gate st)))",
       goal_cases)
  case 1
  then show ?case by simp
next
  case (2 pick n body st)
  let ?j = "pick n mod length (inflight st)"
  from 2 have j: "?j < length (inflight st)" by simp
  then have len: "length (take ?j (inflight st) @ drop (Suc ?j) (inflight st)) =
                    length (inflight st) - 1"
    by simp
  show ?case
  proof (cases "waitQueue (gate st)")
    case Nil
    with len j show ?thesis
      by (simp add: settle_task_def release_def Let_def)
  next
    case (Cons w ws)
    with len j show ?thesis
      by (simp add: settle_task_def release_def Let_def)
  qed
qed

declare drain.simps [simp del]

definition run_gated ::
  "int \<Rightarrow> (nat \<Rightarrow> nat) \<Rightarrow> ('t \<Rightarrow> 'a \<Rightarrow> 'a) \<Rightarrow> 't list \<Rightarrow> 'a \<Rightarrow> 'a option" where
  "run_gated maxConcurrency pick body tasks a =
     drain pick 0 body
       (foldl start_task \<lparr>gate = newSemaphore maxConcurrency, inflight = [], acc = a\<rparr> tasks)"





text \<open>
  \<open>HttpClient.batchRequest(requests, maxConcurrency = 10)\<close>: the same shape without
  counters; \<open>request\<close> is what \<open>this.requestWithRetry\<close> settles with for a task.
\<close>

definition record_request ::
  "(nat \<Rightarrow> 'q \<Rightarrow> 'e + 'r) \<Rightarrow> nat \<times> 'q \<Rightarrow> ('e + 'r) option list \<Rightarrow> ('e + 'r) option list" where
  "record_request request task res =
     (case task of (index, item) \<Rightarrow> js_assign res index (request index item))"

definition batchRequest ::
  "int option \<Rightarrow> (nat \<Rightarrow> nat) \<Rightarrow> (nat \<Rightarrow> 'q \<Rightarrow> 'e + 'r) \<Rightarrow> 'q list \<Rightarrow>
   ('e + 'r) option list option" where
  "batchRequest maxConcurrency pick request requests =
     run_gated (case maxConcurrency of None \<Rightarrow> 10 | Some n \<Rightarrow> n) pick (record_request request)
       (enumerate 0 requests) []"

text \<open>
  \<open>AdapterManager.searchAll\<close>: no gate, every task starts at once, and
  \<open>Promise.allSettled\<close> waits for all of them. An adapter is its \<open>search\<close> function
  (\<open>Inl\<close> when it throws); the adapters and the result are maps in insertion order.
\<close>

datatype Platform = NETEASE | QQ | KUGOU | KUWO

function settle_all :: "(nat \<Rightarrow> nat) \<Rightarrow> nat \<Rightarrow> ('t \<Rightarrow> 'a \<Rightarrow> 'a) \<Rightarrow> 't list \<Rightarrow> 'a \<Rightarrow> 'a" where
  "settle_all pick n body tasks a =
     (if tasks = [] then a
      else settle_all pick (Suc n) body
             (take (pick n mod length tasks) tasks @ drop (Suc (pick n mod length tasks)) tasks)
             (body (tasks ! (pick n mod length tasks)) a))"
  by pat_completeness auto
termination
proof (relation "measure (\<lambda>(pick, n, body, tasks, a). length tasks)", goal_cases)
  case 1
  then show ?case by simp
next
  case (2 pick n body tasks a)
  then have "pick n mod length tasks < length tasks" by simp
  then show ?case by simp
qed

declare settle_all.simps [simp del]

definition search_task ::
  "(Platform \<times> ('q \<Rightarrow> 'e + 'r)) list \<Rightarrow> 'q \<Rightarrow> Platform \<Rightarrow> (Platform \<times> ('e + 'r)) list \<Rightarrow>
   (Platform \<times> ('e + 'r)) list" where
  "search_task adapters query platform res =
     (case map_of adapters platform of
        None \<Rightarrow> res
      | Some adapter \<Rightarrow> AList.update platform (adapter query) res)"

definition searchAll ::
  "(Platform \<times> ('q \<Rightarrow> 'e + 'r)) list \<Rightarrow> (nat \<Rightarrow> nat) \<Rightarrow> 'q \<Rightarrow> Platform list option \<Rightarrow>
   (Platform \<times> ('e + 'r)) list" where
  "searchAll adapters pick query platforms =
     (let targetPlatforms = (case platforms of Some ps \<Rightarrow> ps | None \<Rightarrow> map fst adapters)
      in settle_all pick 0 (search_task adapters query) targetPlatforms [])"


text \<open>Inputs used in the examples below.\<close>

definition ex_search :: "nat \<Rightarrow> string \<Rightarrow> string + nat" where
  "ex_search index q = (if q = ''b'' then Inl ''unavailable'' else Inr (length q + index))"


definition ex_adapters :: "(Platform \<times> (string \<Rightarrow> string + nat)) list" where
  "ex_adapters =
     [(NETEASE, \<lambda>q. Inr (length q)), (KUWO, \<lambda>q. Inl ''unavailable''), (QQ, \<lambda>q. Inr 7)]"

section \<open>Properties of the HttpClient counters and of the retry loop\<close>

lemma client_request_rejected:
  "client_request net c = (Rejected e, c') \<Longrightarrow>
     net (sent c) = Rejected e \<and> sent c' = sent c + 1 \<and> errorCount c' = errorCount c + 1 \<and>
     requestCount c' = requestCount c \<and>
     totalResponseTime c' = totalResponseTime c + elapsed_of (net (sent c))"
  by (auto simp: client_request_def response_interceptor_def elapsed_of_def Let_def
           split: option.splits)

lemma client_request_fulfilled:
  "client_request net c = (Fulfilled d el, c') \<Longrightarrow>
     net (sent c) = Fulfilled d el \<and> sent c' = sent c + 1 \<and> errorCount c' = errorCount c \<and>
     requestCount c' = requestCount c + 1 \<and>
     totalResponseTime c' = totalResponseTime c + elapsed_of (net (sent c))"
  by (auto simp: client_request_def response_interceptor_def updateMetrics_def elapsed_of_def
                 Let_def split: option.splits)

lemma newHttpClient_fields [simp]:
  "requestCount newHttpClient = 0" "errorCount newHttpClient = 0"
  "totalResponseTime newHttpClient = 0" "sent newHttpClient = 0"
  by (simp_all add: newHttpClient_def)

lemma rejected_attempts_step:
  "a < b \<Longrightarrow>
   rejected_attempts net a b =
     (if is_rejected (net a) then 1 else 0) + rejected_attempts net (Suc a) b"
  by (simp add: rejected_attempts_def upt_conv_Cons)

lemma rejected_attempts_single:
  "rejected_attempts net a (Suc a) = (if is_rejected (net a) then 1 else 0)"
  by (simp add: rejected_attempts_def)

text \<open>
  The interceptors never lower a counter: \<open>requestCount\<close> and \<open>errorCount\<close> only grow
  along an attempt.
\<close>

lemma response_interceptor_mono:
  "requestCount c \<le> requestCount (response_interceptor a c) \<and>
   errorCount c \<le> errorCount (response_interceptor a c)"
  by (simp add: response_interceptor_def updateMetrics_def Let_def
           split: attempt.splits option.splits)

text \<open>
  What one call of \<open>requestWithRetry\<close> does to the counters, by induction along its own
  recursion: each rejected attempt raises \<open>errorCount\<close> and each attempt adds its response
  time. The error handler leaves \<open>requestCount\<close> as it is, which is the defect recorded
  under C1; the fourth conjunct states it for the runs that end with an answer.
\<close>

lemma requestWithRetry_counters:
  "requestWithRetry cfg net rc c = (r, c') \<Longrightarrow>
     sent c < sent c' \<and>
     errorCount c' = errorCount c + rejected_attempts net (sent c) (sent c') \<and>
     rejected_attempts net (sent c) (sent c') + (if isl r then 0 else 1) = sent c' - sent c \<and>
     (\<not> isl r \<longrightarrow> requestCount c' = requestCount c + 1) \<and>
     totalResponseTime c' =
       totalResponseTime c + (\<Sum>n = sent c..<sent c'. elapsed_of (net n))"
proof (induction cfg net rc c arbitrary: r c' rule: requestWithRetry.induct)
  case (1 cfg net retryCount c)
  obtain a c1 where cr: "client_request net c = (a, c1)"
    by (cases "client_request net c")
  show ?case
  proof (cases a)
    case (Fulfilled d el)
    with cr "1.prems" have "r = Inr d" "c' = c1" by (auto simp: requestWithRetry.simps)
    with client_request_fulfilled[OF cr[unfolded Fulfilled]] show ?thesis
      by (simp add: rejected_attempts_single)
  next
    case (Rejected e)
    note f = client_request_rejected[OF cr[unfolded Rejected]]
    show ?thesis
    proof (cases "shouldRetry cfg e retryCount")
      case True
      with cr Rejected "1.prems"
      have rec: "requestWithRetry cfg net (retryCount + 1) c1 = (r, c')"
        by (simp add: requestWithRetry.simps)
      have ih: "sent c1 < sent c' \<and>
         errorCount c' = errorCount c1 + rejected_attempts net (sent c1) (sent c') \<and>
         rejected_attempts net (sent c1) (sent c') + (if isl r then 0 else 1) = sent c' - sent c1 \<and>
         (\<not> isl r \<longrightarrow> requestCount c' = requestCount c1 + 1) \<and>
         totalResponseTime c' =
           totalResponseTime c1 + (\<Sum>n = sent c1..<sent c'. elapsed_of (net n))"
        using "1.IH"[OF cr[symmetric] Rejected True rec] .
      have lt: "sent c < sent c'" using f ih by simp
      have s: "(\<Sum>n = sent c..<sent c'. elapsed_of (net n)) =
                 elapsed_of (net (sent c)) + (\<Sum>n = sent c1..<sent c'. elapsed_of (net n))"
        using f ih by (simp add: sum.atLeast_Suc_lessThan)
      have ra: "rejected_attempts net (sent c) (sent c') =
                  1 + rejected_attempts net (sent c1) (sent c')"
        using rejected_attempts_step[OF lt, of net] f by simp
      from f ih s ra lt show ?thesis by auto
    next
      case False
      with cr Rejected "1.prems" have "r = Inl (createApiError cfg e)" "c' = c1"
        by (auto simp: requestWithRetry.simps)
      with f show ?thesis by (simp add: rejected_attempts_single)
    qed
  qed
qed

lemma shouldRetry_iff:
  "shouldRetry cfg e rc \<longleftrightarrow>
     (int rc < retries cfg \<and>
      (transient_code (err_code e) \<or> (\<exists>s. err_status e = Some s \<and> (s \<ge> 500 \<or> s = 429))))"
  by (auto simp: shouldRetry_def split: option.splits)

text \<open>
  Against a network whose every answer is a retryable failure, the loop stops only when
  the retry budget is used up: it makes \<open>retries - retryCount + 1\<close> attempts and fails.
\<close>

lemma requestWithRetry_all_retryable:
  "(\<forall>n. \<exists>e. net n = Rejected e \<and>
      (transient_code (err_code e) \<or> (\<exists>s. err_status e = Some s \<and> (s \<ge> 500 \<or> s = 429)))) \<Longrightarrow>
   int rc \<le> retries cfg \<Longrightarrow>
     isl (fst (requestWithRetry cfg net rc c)) \<and>
     int (sent (snd (requestWithRetry cfg net rc c))) = int (sent c) + (retries cfg - int rc + 1)"
proof (induction cfg net rc c rule: requestWithRetry.induct)
  case (1 cfg net retryCount c)
  obtain e where e: "net (sent c) = Rejected e"
      "transient_code (err_code e) \<or> (\<exists>s. err_status e = Some s \<and> (s \<ge> 500 \<or> s = 429))"
    using "1.prems"(1) by blast
  obtain c1 where cr: "client_request net c = (Rejected e, c1)"
    using e by (simp add: client_request_def)
  note f = client_request_rejected[OF cr]
  show ?case
  proof (cases "shouldRetry cfg e retryCount")
    case True
    then have lt: "int (retryCount + 1) \<le> retries cfg" by (simp add: shouldRetry_iff)
    from "1.IH"[OF cr[symmetric] refl True "1.prems"(1) lt] f True cr show ?thesis
      by (simp add: requestWithRetry.simps[of cfg net retryCount c])
  next
    case False
    with e have "int retryCount = retries cfg"
      using "1.prems"(2) by (auto simp: shouldRetry_iff)
    with False f cr show ?thesis
      by (simp add: requestWithRetry.simps[of cfg net retryCount c])
  qed
qed

lemma requestWithRetry_404:
  "net (sent c) = Rejected e \<Longrightarrow> \<not> transient_code (err_code e) \<Longrightarrow> err_status e = Some 404 \<Longrightarrow>
   fst (requestWithRetry cfg net rc c) = Inl (createApiError cfg e) \<and>
   sent (snd (requestWithRetry cfg net rc c)) = sent c + 1"
  by (simp add: requestWithRetry.simps client_request_def shouldRetry_iff
        response_interceptor_def Let_def split: option.splits)

lemma fail_twice_then_ok_run:
  "requestWithRetry \<lparr>retries = 3\<rparr> fail_twice_then_ok 0 newHttpClient =
     (Inr (), \<lparr>requestCount = 1, errorCount = 2, totalResponseTime = 19, sent = 3\<rparr>)"
  by (simp add: requestWithRetry.simps client_request_def response_interceptor_def
        updateMetrics_def fail_twice_then_ok_def status_error_def shouldRetry_def transient_code_def
        newHttpClient_def Let_def)

lemma always_500_run:
  "snd (requestWithRetry \<lparr>retries = 3\<rparr> (always_status 500) 0 newHttpClient) =
     \<lparr>requestCount = 0, errorCount = 4, totalResponseTime = 28, sent = 4\<rparr>"
  by (simp add: requestWithRetry.simps client_request_def response_interceptor_def
        updateMetrics_def always_status_def status_error_def shouldRetry_def transient_code_def
        newHttpClient_def Let_def)

lemma ok_then_404_runs:
  "snd (requestWithRetry \<lparr>retries = 0\<rparr> ok_then_404 0
     (snd (requestWithRetry \<lparr>retries = 0\<rparr> ok_then_404 0
       (snd (requestWithRetry \<lparr>retries = 0\<rparr> ok_then_404 0 newHttpClient))))) =
     \<lparr>requestCount = 1, errorCount = 2, totalResponseTime = 19, sent = 3\<rparr>"
  by (simp add: requestWithRetry.simps client_request_def response_interceptor_def
        updateMetrics_def ok_then_404_def status_error_def shouldRetry_def transient_code_def
        newHttpClient_def Let_def)

text \<open>
  C1. The claim: the error rate reported by \<open>HttpClient.getMetrics\<close> and the error rate
  stored by \<open>AdapterManager.updateMetrics\<close> always lie in \<open>[0,1]\<close>. The code leaves that
  range. Three calls of an \<open>HttpClient\<close> without retries, the first answered and the next
  two rejected with status 404, leave \<open>requestCount = 1\<close> and \<open>errorCount = 2\<close> (the error
  handler of the interceptor does not count the request), so \<open>getMetrics\<close> reports an
  error rate of 2. Two failed operations recorded by \<open>AdapterManager.updateMetrics\<close> from
  the initial metrics store an error rate of 3/2 (the error count is rebuilt from the old
  rate and the already incremented request count).
\<close>

theorem c1_errorRate_leaves_unit_interval:
  "m_errorRate (getMetrics
     (snd (requestWithRetry \<lparr>retries = 0\<rparr> ok_then_404 0
       (snd (requestWithRetry \<lparr>retries = 0\<rparr> ok_then_404 0
         (snd (requestWithRetry \<lparr>retries = 0\<rparr> ok_then_404 0 newHttpClient))))))) = 2 \<and>
   pm_errorRate (am_updateMetrics ''search'' 10 False
     (am_updateMetrics ''search'' 10 False initializeMetrics)) = 3 / 2"
  by (simp add: ok_then_404_runs getMetrics_def am_updateMetrics_def initializeMetrics_def
        Let_def)

text \<open>
  C2, as the claim states it, fails on its own example: with \<open>retries = 3\<close>, a call whose
  first two attempts are rejected with status 500 and whose third attempt is answered
  returns the answer after three attempts and has raised \<open>errorCount\<close> by 2, not by 0;
  and a call that fails for good against an endpoint that always answers 500 has raised
  \<open>errorCount\<close> by 4, once per attempt, not once.
\<close>

theorem c2_counterexample:
  "fst (requestWithRetry \<lparr>retries = 3\<rparr> fail_twice_then_ok 0 newHttpClient) = Inr () \<and>
   sent (snd (requestWithRetry \<lparr>retries = 3\<rparr> fail_twice_then_ok 0 newHttpClient)) = 3 \<and>
   errorCount (snd (requestWithRetry \<lparr>retries = 3\<rparr> fail_twice_then_ok 0 newHttpClient)) =
     errorCount newHttpClient + 2 \<and>
   errorCount (snd (requestWithRetry \<lparr>retries = 3\<rparr> (always_status 500) 0 newHttpClient)) =
     errorCount newHttpClient + 4"
  by (simp add: fail_twice_then_ok_run always_500_run)

text \<open>
  C2, amended: \<open>errorCount\<close> and \<open>totalResponseTime\<close> are updated once per attempt, by
  the interceptors, not once per logical call. Over one call of \<open>requestWithRetry\<close>,
  \<open>errorCount\<close> grows by the number of rejected attempts of that call (every attempt but
  a final answered one), and \<open>totalResponseTime\<close> grows by the sum of the response times
  of all its attempts. What rejected attempts do to \<open>requestCount\<close> is the defect of C1
  and is not part of this statement.
\<close>

theorem c2_counters_per_attempt:
  "requestWithRetry cfg net rc c = (r, c') \<Longrightarrow>
     errorCount c' = errorCount c + rejected_attempts net (sent c) (sent c') \<and>
     rejected_attempts net (sent c) (sent c') + (if isl r then 0 else 1) = sent c' - sent c \<and>
     totalResponseTime c' =
       totalResponseTime c + (\<Sum>n = sent c..<sent c'. elapsed_of (net n))"
  using requestWithRetry_counters[of cfg net rc c r c'] by simp

theorem c2_counters_per_attempt_witness:
  "fst (requestWithRetry \<lparr>retries = 3\<rparr> fail_twice_then_ok 0 newHttpClient) = Inr () \<and>
   sent (snd (requestWithRetry \<lparr>retries = 3\<rparr> fail_twice_then_ok 0 newHttpClient)) = 3 \<and>
   errorCount (snd (requestWithRetry \<lparr>retries = 3\<rparr> fail_twice_then_ok 0 newHttpClient)) = 2 \<and>
   totalResponseTime (snd (requestWithRetry \<lparr>retries = 3\<rparr> fail_twice_then_ok 0 newHttpClient)) =
     19 \<and>
   rejected_attempts fail_twice_then_ok 0 3 = 2 \<and>
   (\<Sum>n = 0..<3. elapsed_of (fail_twice_then_ok n)) = 19"
  using c2_counters_per_attempt[OF fail_twice_then_ok_run] fail_twice_then_ok_run
  by simp

text \<open>
  C3. A failed attempt is followed by a retry exactly when fewer than \<open>retries\<close> retries
  have been made and the failure has one of the four network error codes, or a status of
  at least 500, or the status 429. With \<open>retries = 3\<close> and an endpoint that always answers
  500 the call makes exactly 4 attempts and fails with an error; a 404 answer is
  followed by no retry, whatever \<open>retries\<close> is.
\<close>

theorem c3_retry_predicate:
  "(shouldRetry cfg e rc \<longleftrightarrow>
      int rc < retries cfg \<and>
      (err_code e = Some ''ECONNRESET'' \<or> err_code e = Some ''ETIMEDOUT'' \<or>
       err_code e = Some ''ECONNREFUSED'' \<or> err_code e = Some ''ENOTFOUND'' \<or>
       (\<exists>s. err_status e = Some s \<and> (s \<ge> 500 \<or> s = 429)))) \<and>
   (client_request net c = (Rejected e, c') \<longrightarrow>
      requestWithRetry cfg net rc c =
        (if shouldRetry cfg e rc then requestWithRetry cfg net (rc + 1) c'
         else (Inl (createApiError cfg e), c'))) \<and>
   (retries cfg3 = 3 \<and> (\<forall>n. \<exists>e. net500 n = Rejected e \<and> err_status e = Some 500) \<longrightarrow>
      isl (fst (requestWithRetry cfg3 net500 0 c)) \<and>
      sent (snd (requestWithRetry cfg3 net500 0 c)) = sent c + 4) \<and>
   (net404 (sent c) = Rejected e404 \<and> err_status e404 = Some 404 \<and>
    err_code e404 \<notin> {Some ''ECONNRESET'', Some ''ETIMEDOUT'', Some ''ECONNREFUSED'',
                      Some ''ENOTFOUND''} \<longrightarrow>
      fst (requestWithRetry cfg net404 rc c) = Inl (createApiError cfg e404) \<and>
      sent (snd (requestWithRetry cfg net404 rc c)) = sent c + 1)"
proof (intro conjI impI)
  show "shouldRetry cfg e rc \<longleftrightarrow>
      int rc < retries cfg \<and>
      (err_code e = Some ''ECONNRESET'' \<or> err_code e = Some ''ETIMEDOUT'' \<or>
       err_code e = Some ''ECONNREFUSED'' \<or> err_code e = Some ''ENOTFOUND'' \<or>
       (\<exists>s. err_status e = Some s \<and> (s \<ge> 500 \<or> s = 429)))"
    unfolding shouldRetry_iff transient_code_def by blast
next
  assume "client_request net c = (Rejected e, c')"
  then show "requestWithRetry cfg net rc c =
        (if shouldRetry cfg e rc then requestWithRetry cfg net (rc + 1) c'
         else (Inl (createApiError cfg e), c'))"
    by (simp add: requestWithRetry.simps[of cfg net rc c])
next
  assume h: "retries cfg3 = 3 \<and> (\<forall>n. \<exists>e. net500 n = Rejected e \<and> err_status e = Some 500)"
  then have all: "\<forall>n. \<exists>e. net500 n = Rejected e \<and>
      (transient_code (err_code e) \<or> (\<exists>s. err_status e = Some s \<and> (s \<ge> 500 \<or> s = 429)))"
    by fastforce
  from h have le: "int 0 \<le> retries cfg3" by simp
  from requestWithRetry_all_retryable[OF all le, of c] h
  show "isl (fst (requestWithRetry cfg3 net500 0 c))" by simp
  from requestWithRetry_all_retryable[OF all le, of c] h
  show "sent (snd (requestWithRetry cfg3 net500 0 c)) = sent c + 4" by simp
next
  assume h: "net404 (sent c) = Rejected e404 \<and> err_status e404 = Some 404 \<and>
    err_code e404 \<notin> {Some ''ECONNRESET'', Some ''ETIMEDOUT'', Some ''ECONNREFUSED'',
                      Some ''ENOTFOUND''}"
  then have nt: "\<not> transient_code (err_code e404)" by (simp add: transient_code_def)
  from requestWithRetry_404[OF _ nt, of net404 c cfg rc] h
  show "fst (requestWithRetry cfg net404 rc c) = Inl (createApiError cfg e404)" by simp
  from requestWithRetry_404[OF _ nt, of net404 c cfg rc] h
  show "sent (snd (requestWithRetry cfg net404 rc c)) = sent c + 1" by simp
qed

theorem c3_retry_predicate_witness:
  "client_request (always_status 500) newHttpClient =
     (Rejected (status_error 500),
      \<lparr>requestCount = 0, errorCount = 1, totalResponseTime = 7, sent = 1\<rparr>) \<and>
   shouldRetry \<lparr>retries = 3\<rparr> (status_error 500) 0 \<and>
   retries \<lparr>retries = 3\<rparr> = 3 \<and>
   (\<forall>n. \<exists>e. always_status 500 n = Rejected e \<and> err_status e = Some 500) \<and>
   isl (fst (requestWithRetry \<lparr>retries = 3\<rparr> (always_status 500) 0 newHttpClient)) \<and>
   sent (snd (requestWithRetry \<lparr>retries = 3\<rparr> (always_status 500) 0 newHttpClient)) = 4 \<and>
   always_status 404 (sent newHttpClient) = Rejected (status_error 404) \<and>
   err_status (status_error 404) = Some 404 \<and>
   fst (requestWithRetry \<lparr>retries = 3\<rparr> (always_status 404) 0 newHttpClient) =
     Inl (createApiError \<lparr>retries = 3\<rparr> (status_error 404)) \<and>
   sent (snd (requestWithRetry \<lparr>retries = 3\<rparr> (always_status 404) 0 newHttpClient)) = 1"
proof -
  have h1: "client_request (always_status 500) newHttpClient =
     (Rejected (status_error 500),
      \<lparr>requestCount = 0, errorCount = 1, totalResponseTime = 7, sent = 1\<rparr>)"
    by (simp add: client_request_def response_interceptor_def always_status_def
          status_error_def newHttpClient_def Let_def)
  have h3: "\<forall>n. \<exists>e. always_status 500 n = Rejected e \<and> err_status e = Some 500"
    by (simp add: always_status_def status_error_def)
  have h4: "always_status 404 (sent newHttpClient) = Rejected (status_error 404)"
       "err_status (status_error 404) = Some 404"
       "err_code (status_error 404) \<notin> {Some ''ECONNRESET'', Some ''ETIMEDOUT'',
          Some ''ECONNREFUSED'', Some ''ENOTFOUND''}"
    by (simp_all add: always_status_def status_error_def)
  note t = c3_retry_predicate[where cfg = "\<lparr>retries = 3\<rparr>" and e = "status_error 500"
      and rc = 0 and net = "always_status 500" and c = newHttpClient
      and c' = "\<lparr>requestCount = 0, errorCount = 1, totalResponseTime = 7, sent = 1\<rparr>"
      and ?cfg3.0 = "\<lparr>retries = 3\<rparr>" and ?net500.0 = "always_status 500"
      and ?net404.0 = "always_status 404" and ?e404.0 = "status_error 404"]
  have t1: "shouldRetry \<lparr>retries = 3\<rparr> (status_error 500) 0"
    using t by (simp add: status_error_def)
  have t3: "isl (fst (requestWithRetry \<lparr>retries = 3\<rparr> (always_status 500) 0 newHttpClient)) \<and>
      sent (snd (requestWithRetry \<lparr>retries = 3\<rparr> (always_status 500) 0 newHttpClient)) = 4"
    using t h3 by simp
  have t4: "fst (requestWithRetry \<lparr>retries = 3\<rparr> (always_status 404) 0 newHttpClient) =
       Inl (createApiError \<lparr>retries = 3\<rparr> (status_error 404)) \<and>
     sent (snd (requestWithRetry \<lparr>retries = 3\<rparr> (always_status 404) 0 newHttpClient)) = 1"
    using t h4 by simp
  from h1 h3 h4 t1 t3 t4 show ?thesis by simp
qed

section \<open>Properties of the Semaphore\<close>

lemma acquirers_append: "acquirers (xs @ ys) = acquirers xs @ acquirers ys"
  by (induction xs rule: acquirers.induct) auto

lemma sem_inv_start: "0 < n \<Longrightarrow> sem_inv n [] (sem_start n)"
  by (simp add: sem_inv_def sem_start_def newSemaphore_def outstanding_def)

lemma sem_inv_step: "sem_inv n calls h \<Longrightarrow> sem_inv n (calls @ [c]) (sem_step h c)"
proof (cases c)
  case (Acquire caller)
  assume "sem_inv n calls h"
  then show ?thesis unfolding Acquire
    by (auto simp: sem_inv_def acquire_def outstanding_def acquirers_append)
next
  case Release
  assume "sem_inv n calls h"
  then show ?thesis unfolding Release
    by (cases "waitQueue (sem h)")
       (auto simp: sem_inv_def release_def outstanding_def acquirers_append Let_def)
qed

lemma sem_run_snoc: "sem_run n (calls @ [c]) = sem_step (sem_run n calls) c"
  by (simp add: sem_run_def)

lemma sem_inv_run: "0 < n \<Longrightarrow> sem_inv n calls (sem_run n calls)"
proof (induction calls rule: rev_induct)
  case Nil
  then show ?case by (simp add: sem_run_def sem_inv_start)
next
  case (snoc c calls)
  then show ?case by (simp add: sem_run_snoc sem_inv_step)
qed

lemma release_hands_over:
  "waitQueue s = w # ws \<Longrightarrow> release s = (Some w, s\<lparr>waitQueue := ws\<rparr>)"
  by (simp add: release_def Let_def)

text \<open>
  C6. For a semaphore created with a positive number \<open>n\<close> of permits and any list of
  \<open>acquire\<close> and \<open>release\<close> calls, the number of outstanding permits (admissions minus
  releases) never exceeds \<open>n\<close>; the free permits are exactly \<open>n\<close> minus the outstanding
  ones; callers are admitted in the order of their \<open>acquire\<close> calls (the admitted callers
  followed by the wait queue are the callers in call order), and a caller waits only
  while no permit is free. A \<open>release\<close> that finds waiters resumes the head of the queue,
  the longest-waiting caller, and leaves the number of free permits as it was.
\<close>

theorem c6_semaphore_capacity_fifo:
  "(0 < n \<longrightarrow>
      outstanding (sem_run n calls) \<le> n \<and>
      permits (sem (sem_run n calls)) = n - outstanding (sem_run n calls) \<and>
      admitted (sem_run n calls) @ waitQueue (sem (sem_run n calls)) = acquirers calls \<and>
      (waitQueue (sem (sem_run n calls)) = [] \<or> permits (sem (sem_run n calls)) = 0)) \<and>
   (waitQueue s = w # ws \<longrightarrow> release s = (Some w, s\<lparr>waitQueue := ws\<rparr>))"
  using sem_inv_run[of n calls] release_hands_over[of s w ws]
  by (auto simp: sem_inv_def)

theorem c6_semaphore_capacity_fifo_witness:
  "(0::int) < 1 \<and>
   outstanding (sem_run 1 [Acquire (1::nat), Acquire 2, Acquire 3, Release, Release]) = 1 \<and>
   admitted (sem_run 1 [Acquire (1::nat), Acquire 2, Acquire 3, Release, Release]) = [1, 2, 3] \<and>
   permits (sem (sem_run 1 [Acquire (1::nat), Acquire 2, Acquire 3, Release, Release])) = 0 \<and>
   waitQueue \<lparr>permits = 0, waitQueue = [2::nat, 3]\<rparr> = 2 # [3] \<and>
   release \<lparr>permits = 0, waitQueue = [2::nat, 3]\<rparr> = (Some 2, \<lparr>permits = 0, waitQueue = [3]\<rparr>)"
  using c6_semaphore_capacity_fifo[of 1 "[Acquire (1::nat), Acquire 2, Acquire 3, Release, Release]"
          "\<lparr>permits = 0, waitQueue = [2::nat, 3]\<rparr>" 2 "[3]"]
  by (simp add: sem_run_def sem_start_def newSemaphore_def acquire_def release_def
        outstanding_def Let_def)

section \<open>Properties of the cache\<close>

subsection \<open>Association lists as JavaScript maps\<close>

lemma update_fresh: "k \<notin> fst ` set al \<Longrightarrow> AList.update k v al = al @ [(k, v)]"
  by (induction al) auto

lemma length_update:
  "length (AList.update k v al) = (if k \<in> fst ` set al then length al else Suc (length al))"
  by (induction al) auto

lemma keys_delete: "fst ` set (AList.delete k al) = fst ` set al - {k}"
  by (induction al) auto

lemma length_delete_distinct:
  "distinct (map fst al) \<Longrightarrow> k \<in> fst ` set al \<Longrightarrow> Suc (length (AList.delete k al)) = length al"
  by (induction al) (auto simp: rev_image_eqI)

lemma distinct_snd_delete: "distinct (map snd al) \<Longrightarrow> distinct (map snd (AList.delete k al))"
  by (simp add: AList.delete_eq distinct_map_filter)

lemma list_all_delete: "list_all P al \<Longrightarrow> list_all P (AList.delete k al)"
  by (simp add: AList.delete_eq list_all_iff)

lemma set_update_subset: "set (AList.update k v al) \<subseteq> insert (k, v) (set al)"
  by (induction al) auto

lemma distinct_snd_update:
  "distinct (map snd al) \<Longrightarrow> v \<notin> snd ` set al \<Longrightarrow> distinct (map snd (AList.update k v al))"
proof (induction al)
  case Nil
  then show ?case by simp
next
  case (Cons a al)
  have sub: "snd ` set (AList.update k v al) \<subseteq> insert v (snd ` set al)"
    using set_update_subset[of k v al] by force
  from Cons sub show ?case by (cases a) auto
qed

lemma list_all_update: "list_all P al \<Longrightarrow> P (k, v) \<Longrightarrow> list_all P (AList.update k v al)"
  using set_update_subset[of k v al] by (auto simp: list_all_iff)

subsection \<open>Well-formedness is preserved by every operation\<close>

lemma mc_wf_new: "mc_wf (newMemoryCache cfg)"
  by (simp add: mc_wf_def newMemoryCache_def)

lemma mc_wf_delete: "mc_wf s \<Longrightarrow> mc_wf (snd (mc_delete k s))"
  unfolding mc_wf_def mc_delete_def
  by (simp add: distinct_delete distinct_snd_delete list_all_delete keys_delete)

lemma mc_wf_evict: "mc_wf s \<Longrightarrow> mc_wf (evictLeastUsed s)"
  by (simp add: evictLeastUsed_def mc_wf_delete split: option.splits)

lemma fresh_order: "list_all (\<lambda>entry. snd entry \<le> n) ao \<Longrightarrow> Suc n \<notin> snd ` set ao"
  by (auto simp: list_all_iff)

lemma list_all_le_Suc:
  "list_all (\<lambda>entry. snd entry \<le> n) ao \<Longrightarrow> list_all (\<lambda>entry. snd entry \<le> Suc n) (ao :: ('a \<times> nat) list)"
  by (auto simp: list_all_iff)

lemma mc_wf_touch:
  assumes "mc_wf s"
  shows "mc_wf (s\<lparr>cache := AList.update k item (cache s),
                 accessOrder := AList.update k (accessCounter s + 1) (accessOrder s),
                 accessCounter := accessCounter s + 1\<rparr>)"
  using assms unfolding mc_wf_def
  by (simp add: distinct_update dom_update distinct_snd_update fresh_order
        list_all_update list_all_le_Suc)

lemma mc_wf_set: "mc_wf s \<Longrightarrow> mc_wf (mc_set now k v ttl s)"
  unfolding mc_set_def Let_def
  by (rule mc_wf_touch) (simp add: mc_wf_evict)

lemma mc_wf_stats: "mc_wf (s\<lparr>misses := m\<rparr>) = mc_wf s" "mc_wf (s\<lparr>hits := h\<rparr>) = mc_wf s"
  by (simp_all add: mc_wf_def)

lemma mc_wf_get: "mc_wf s \<Longrightarrow> mc_wf (snd (mc_get now k s))"
proof -
  assume wf: "mc_wf s"
  show ?thesis
  proof (cases "map_of (cache s) k")
    case None
    with wf show ?thesis by (simp add: mc_get_def mc_wf_stats)
  next
    case (Some item)
    show ?thesis
    proof (cases "isExpired now item")
      case True
      with Some wf show ?thesis by (simp add: mc_get_def Let_def mc_wf_stats mc_wf_delete)
    next
      case False
      have "mc_wf (s\<lparr>cache := AList.update k (item\<lparr>accessCount := accessCount item + 1, lastAccessed := now\<rparr>) (cache s),
                 accessOrder := AList.update k (accessCounter s + 1) (accessOrder s),
                 accessCounter := accessCounter s + 1\<rparr>)"
        using wf by (rule mc_wf_touch)
      then have "mc_wf (s\<lparr>cache := AList.update k (item\<lparr>accessCount := accessCount item + 1, lastAccessed := now\<rparr>) (cache s),
                 accessOrder := AList.update k (accessCounter s + 1) (accessOrder s),
                 accessCounter := accessCounter s + 1, hits := hits s + 1\<rparr>)"
        by (simp add: mc_wf_def)
      with Some False show ?thesis by (simp add: mc_get_def)
    qed
  qed
qed

lemma mc_wf_deletes: "mc_wf s \<Longrightarrow> mc_wf (foldl (\<lambda>s' key. snd (mc_delete key s')) s ks)"
  by (induction ks arbitrary: s) (simp_all add: mc_wf_delete)

lemma mc_wf_sweep: "mc_wf s \<Longrightarrow> mc_wf (cleanupExpired now s)"
  by (simp add: cleanupExpired_def Let_def mc_wf_deletes)

lemma mc_wf_clear: "mc_wf (mc_clear s)"
  by (simp add: mc_wf_def mc_clear_def)

lemma mc_wf_step: "mc_wf s \<Longrightarrow> mc_wf (mc_step s c)"
proof (cases c)
  case (Pair now call)
  assume "mc_wf s"
  then show ?thesis unfolding Pair
    by (cases call) (simp_all add: mc_wf_get mc_wf_set mc_wf_delete mc_wf_clear mc_wf_sweep)
qed

lemma mc_wf_run: "mc_wf s \<Longrightarrow> mc_wf (mc_run s calls)"
  unfolding mc_run_def by (induction calls arbitrary: s) (simp_all add: mc_wf_step)

subsection \<open>What an operation can do to the entry of another key\<close>

lemma same_or_gone_refl: "same_or_gone key s s"
  by (cases "map_of (cache s) key") (auto simp: same_or_gone_def)

lemma same_or_gone_cache_eq: "cache s' = cache s \<Longrightarrow> same_or_gone key s s'"
  by (cases "map_of (cache s) key") (auto simp: same_or_gone_def)

lemma same_or_gone_trans:
  "same_or_gone key s s' \<Longrightarrow> same_or_gone key s' s'' \<Longrightarrow> same_or_gone key s s''"
  by (auto simp: same_or_gone_def)

lemma mc_delete_cache: "cache (snd (mc_delete k s)) = AList.delete k (cache s)"
  by (simp add: mc_delete_def)

lemma same_or_gone_delete: "same_or_gone key s (snd (mc_delete k s))"
  by (cases "map_of (cache s) key") (auto simp: same_or_gone_def mc_delete_cache delete_conv')

lemma same_or_gone_evict: "same_or_gone key s (evictLeastUsed s)"
  by (auto simp: evictLeastUsed_def same_or_gone_refl same_or_gone_delete split: option.splits)

lemma same_or_gone_deletes:
  "same_or_gone key s (foldl (\<lambda>s' k. snd (mc_delete k s')) s ks)"
proof (induction ks arbitrary: s)
  case Nil
  then show ?case by (simp add: same_or_gone_refl)
next
  case (Cons k ks)
  from same_or_gone_trans[OF same_or_gone_delete[of key s k] Cons.IH[of "snd (mc_delete k s)"]]
  show ?case by simp
qed

lemma same_or_gone_sweep: "same_or_gone key s (cleanupExpired now s)"
  by (simp add: cleanupExpired_def Let_def same_or_gone_deletes)

lemma same_or_gone_get_other:
  "k \<noteq> key \<Longrightarrow> same_or_gone key s (snd (mc_get now k s))"
  by (cases "map_of (cache s) key")
     (auto simp: same_or_gone_def mc_get_def mc_delete_cache delete_conv' update_conv' Let_def
           split: option.splits)

lemma same_or_gone_get: "same_or_gone key s (snd (mc_get now k s))"
  by (cases "map_of (cache s) key")
     (auto simp: same_or_gone_def mc_get_def mc_delete_cache delete_conv' update_conv' Let_def
           split: option.splits)

lemma same_or_gone_set_other:
  assumes "k \<noteq> key" shows "same_or_gone key s (mc_set now k v ttl s)"
proof -
  let ?s1 = "if int (length (cache s)) \<ge> maxSize (config s) then evictLeastUsed s else s"
  have a: "same_or_gone key s ?s1" by (simp add: same_or_gone_refl same_or_gone_evict)
  have "map_of (cache (mc_set now k v ttl s)) key = map_of (cache ?s1) key"
    using assms by (simp add: mc_set_def Let_def update_conv')
  with a show ?thesis by (auto simp: same_or_gone_def)
qed

lemma same_or_gone_step:
  "\<not> is_set_of key (snd c) \<Longrightarrow> same_or_gone key s (mc_step s c)"
proof (cases c)
  case (Pair now call)
  assume n: "\<not> is_set_of key (snd c)"
  show ?thesis
  proof (cases call)
    case (Set k v ttl)
    with n Pair have "k \<noteq> key" by auto
    then show ?thesis unfolding Pair Set by (simp add: same_or_gone_set_other)
  qed (simp_all add: Pair same_or_gone_get same_or_gone_delete same_or_gone_refl
         same_or_gone_sweep, simp add: same_or_gone_def mc_clear_def)
qed

lemma gone_at_same_or_gone: "gone_at t key s \<Longrightarrow> same_or_gone key s s' \<Longrightarrow> gone_at t key s'"
  by (auto simp: gone_at_def same_or_gone_def split: option.splits)

lemma gone_at_step:
  "gone_at t1 key s \<Longrightarrow> \<not> is_set_of key (snd c) \<Longrightarrow> gone_at t1 key (mc_step s c)"
  using gone_at_same_or_gone same_or_gone_step by blast

lemma gone_at_run:
  "gone_at t1 key s \<Longrightarrow> list_all (\<lambda>c. \<not> is_set_of key (snd c)) calls \<Longrightarrow>
   gone_at t1 key (mc_run s calls)"
  unfolding mc_run_def
  by (induction calls arbitrary: s) (auto simp: gone_at_step)

lemma gone_at_reads:
  "gone_at t1 key s \<Longrightarrow> t1 \<le> t \<Longrightarrow> fst (mc_get t key s) = None \<and> \<not> mc_has t key s"
  by (auto simp: gone_at_def mc_get_def mc_has_def isExpired_def Let_def split: option.splits)

lemma set_then_get:
  "map_of (cache (mc_set t0 key v ttl s)) key =
     Some \<lparr>item_key = key, item_value = v,
           item_ttl = (case ttl of Some t \<Rightarrow> if t = 0 then cfg_ttl (config s) else t | None \<Rightarrow> cfg_ttl (config s)),
           createdAt = t0, accessCount = 1, lastAccessed = t0\<rparr>"
  by (simp add: mc_set_def Let_def update_conv')

lemma reads_of_present:
  "map_of (cache s) key = Some it \<Longrightarrow>
     (fst (mc_get now key s) = None \<longleftrightarrow> now - createdAt it > item_ttl it) \<and>
     (fst (mc_get now key s) = Some (item_value it) \<longleftrightarrow> \<not> now - createdAt it > item_ttl it) \<and>
     (mc_has now key s \<longleftrightarrow> \<not> now - createdAt it > item_ttl it)"
  by (auto simp: mc_get_def mc_has_def isExpired_def Let_def)

subsection \<open>Warmup\<close>

lemma warmup_fold_fst_keys:
  "fst ` set (fst (foldl warmup_step (m, c) items)) = fst ` set m \<union> fst ` set items"
proof (induction items arbitrary: m c)
  case Nil
  then show ?case by simp
next
  case (Cons item items)
  obtain k v t where item: "item = (k, v, t)" by (cases item)
  have "foldl warmup_step (m, c) (item # items) =
          foldl warmup_step (AList.update k v m, if falsy_ttl c then t else c) items"
    by (simp add: warmup_step_def item)
  then show ?case
    using Cons.IH[of "AList.update k v m" "if falsy_ttl c then t else c"]
    by (simp add: dom_update item Un_assoc)
qed

lemma warmup_fold_snd_truthy:
  "\<not> falsy_ttl c \<Longrightarrow> snd (foldl warmup_step (m, c) items) = c"
  by (induction items arbitrary: m) (auto simp: warmup_step_def)

lemma warmup_fold_effective:
  "falsy_ttl c \<Longrightarrow>
   effective_ttl (snd (foldl warmup_step (m, c) items)) dflt = shared_ttl items dflt"
proof (induction items arbitrary: m c)
  case Nil
  then show ?case by (auto simp: effective_ttl_def shared_ttl_def falsy_ttl_def)
next
  case (Cons item items)
  obtain k v t where item: "item = (k, v, t)" by (cases item)
  show ?case
  proof (cases "falsy_ttl t")
    case True
    with Cons.prems Cons.IH[of t "AList.update k v m"] show ?thesis
      by (simp add: warmup_step_def item shared_ttl_def)
  next
    case False
    then obtain tt where t: "t = Some tt" "tt \<noteq> 0" by (auto simp: falsy_ttl_def)
    from False Cons.prems have "snd (foldl warmup_step (m, c) (item # items)) = t"
      by (simp add: warmup_step_def item warmup_fold_snd_truthy)
    with t show ?thesis by (simp add: effective_ttl_def shared_ttl_def item falsy_ttl_def)
  qed
qed

lemma mc_set_effective:
  "effective_ttl ttl (cfg_ttl (config s)) = effective_ttl ttl' (cfg_ttl (config s)) \<Longrightarrow>
   mc_set now k v ttl s = mc_set now k v ttl' s"
  by (simp add: mc_set_def effective_ttl_def Let_def)

lemma effective_ttl_idem: "effective_ttl (Some (effective_ttl ttl d)) d = effective_ttl ttl d"
  by (simp add: effective_ttl_def split: option.splits)

lemma config_delete: "config (snd (mc_delete k s)) = config s"
  by (simp add: mc_delete_def)

lemma config_evict: "config (evictLeastUsed s) = config s"
  by (simp add: evictLeastUsed_def config_delete split: option.splits)

lemma config_set: "config (mc_set now k v ttl s) = config s"
  by (simp add: mc_set_def Let_def config_evict)

lemma mset_fold_same:
  "effective_ttl ttl (cfg_ttl (config s)) = effective_ttl ttl' (cfg_ttl (config s)) \<Longrightarrow>
   foldl (\<lambda>s entry. mc_set now (fst entry) (snd entry) ttl s) s entries =
   foldl (\<lambda>s entry. mc_set now (fst entry) (snd entry) ttl' s) s entries"
proof (induction entries arbitrary: s)
  case Nil
  then show ?case by simp
next
  case (Cons e entries)
  have "mc_set now (fst e) (snd e) ttl s = mc_set now (fst e) (snd e) ttl' s"
    using Cons.prems by (rule mc_set_effective)
  with Cons.IH[of "mc_set now (fst e) (snd e) ttl' s"] Cons.prems show ?case
    by (simp add: config_set)
qed

lemma map_of_evict:
  "map_of (cache (evictLeastUsed s)) k = None \<or>
   map_of (cache (evictLeastUsed s)) k = map_of (cache s) k"
  by (auto simp: evictLeastUsed_def mc_delete_def delete_conv' split: option.splits)

lemma map_of_set:
  "map_of (cache (mc_set now k v ttl s)) k' =
     (if k' = k
      then Some \<lparr>item_key = k, item_value = v, item_ttl = effective_ttl ttl (cfg_ttl (config s)),
                 createdAt = now, accessCount = 1, lastAccessed = now\<rparr>
      else map_of (cache (if int (length (cache s)) \<ge> maxSize (config s) then evictLeastUsed s else s)) k')"
  by (simp add: mc_set_def Let_def update_conv' effective_ttl_def)

lemma mset_fold_ttl:
  "\<forall>k\<in>K. \<forall>it. map_of (cache s) k = Some it \<longrightarrow> item_ttl it = effective_ttl ttl (cfg_ttl (config s)) \<and> createdAt it = now \<Longrightarrow>
   k \<in> K \<union> fst ` set entries \<Longrightarrow>
   map_of (cache (foldl (\<lambda>s entry. mc_set now (fst entry) (snd entry) ttl s) s entries)) k = Some it \<Longrightarrow>
   item_ttl it = effective_ttl ttl (cfg_ttl (config s)) \<and> createdAt it = now"
proof (induction entries arbitrary: s K)
  case Nil
  then show ?case by simp
next
  case (Cons e entries)
  let ?s' = "mc_set now (fst e) (snd e) ttl s"
  have inv: "\<forall>k\<in>insert (fst e) K. \<forall>it. map_of (cache ?s') k = Some it \<longrightarrow>
      item_ttl it = effective_ttl ttl (cfg_ttl (config ?s')) \<and> createdAt it = now"
  proof (intro ballI allI impI)
    fix k' it' assume k': "k' \<in> insert (fst e) K" and m: "map_of (cache ?s') k' = Some it'"
    show "item_ttl it' = effective_ttl ttl (cfg_ttl (config ?s')) \<and> createdAt it' = now"
    proof (cases "k' = fst e")
      case True
      with m show ?thesis by (auto simp: map_of_set config_set)
    next
      case False
      with k' have kK: "k' \<in> K" by simp
      from False m have "map_of (cache s) k' = Some it'"
        using map_of_evict[of s k'] by (auto simp: map_of_set split: if_splits)
      with Cons.prems(1) kK show ?thesis by (simp add: config_set)
    qed
  qed
  have mem: "k \<in> insert (fst e) K \<union> fst ` set entries" using Cons.prems(2) by auto
  from Cons.IH[OF inv mem] Cons.prems(3) show ?case by (simp add: config_set)
qed

subsection \<open>Eviction and the capacity bound\<close>

lemma lru_scan_from:
  "\<exists>k ord. foldl lru_step (Some k0, Some o0) ao = (Some k, Some ord) \<and>
     ((k, ord) = (k0, o0) \<or> (k, ord) \<in> set ao) \<and> ord \<le> o0 \<and> (\<forall>e\<in>set ao. ord \<le> snd e)"
proof (induction ao arbitrary: k0 o0)
  case Nil
  then show ?case by simp
next
  case (Cons a ao)
  obtain ka oa where a: "a = (ka, oa)" by (cases a)
  show ?case
  proof (cases "oa < o0")
    case True
    then have st: "lru_step (Some k0, Some o0) a = (Some ka, Some oa)"
      by (simp add: lru_step_def a)
    from Cons.IH[of ka oa] obtain k ord where
      r: "foldl lru_step (Some ka, Some oa) ao = (Some k, Some ord)"
         "(k, ord) = (ka, oa) \<or> (k, ord) \<in> set ao" "ord \<le> oa" "\<forall>e\<in>set ao. ord \<le> snd e"
      by blast
    with True st a show ?thesis by auto
  next
    case False
    then have st: "lru_step (Some k0, Some o0) a = (Some k0, Some o0)"
      by (simp add: lru_step_def a)
    from Cons.IH[of k0 o0] obtain k ord where
      r: "foldl lru_step (Some k0, Some o0) ao = (Some k, Some ord)"
         "(k, ord) = (k0, o0) \<or> (k, ord) \<in> set ao" "ord \<le> o0" "\<forall>e\<in>set ao. ord \<le> snd e"
      by blast
    with False st a show ?thesis by auto
  qed
qed

lemma lru_scan:
  "ao \<noteq> [] \<Longrightarrow>
   \<exists>k ord. foldl lru_step (None, None) ao = (Some k, Some ord) \<and> (k, ord) \<in> set ao \<and>
     (\<forall>e\<in>set ao. ord \<le> snd e)"
proof (cases ao)
  case Nil
  assume "ao \<noteq> []"
  with Nil show ?thesis by simp
next
  case (Cons a rest)
  obtain ka oa where a: "a = (ka, oa)" by (cases a)
  have st: "lru_step (None, None) a = (Some ka, Some oa)" by (simp add: lru_step_def a)
  from lru_scan_from[of ka oa rest] obtain k ord where
    r: "foldl lru_step (Some ka, Some oa) rest = (Some k, Some ord)"
       "(k, ord) = (ka, oa) \<or> (k, ord) \<in> set rest" "ord \<le> oa" "\<forall>e\<in>set rest. ord \<le> snd e"
    by blast
  with st a Cons show ?thesis by auto
qed

lemma map_of_mem_keys: "map_of al k = Some v \<Longrightarrow> k \<in> fst ` set al"
  by (force dest: map_of_SomeD)

lemma wf_lengths: "mc_wf s \<Longrightarrow> length (accessOrder s) = length (cache s)"
proof -
  assume wf: "mc_wf s"
  then have "card (set (map fst (accessOrder s))) = card (set (map fst (cache s)))"
    by (simp add: mc_wf_def)
  moreover have "card (set (map fst (accessOrder s))) = length (map fst (accessOrder s))"
    using wf by (intro distinct_card) (simp add: mc_wf_def)
  moreover have "card (set (map fst (cache s))) = length (map fst (cache s))"
    using wf by (intro distinct_card) (simp add: mc_wf_def)
  ultimately show ?thesis by simp
qed

text \<open>What the eviction does in a well-formed, non-empty cache.\<close>

lemma evict_lru:
  assumes wf: "mc_wf s" and ne: "cache s \<noteq> []"
  shows "\<exists>lru ord. (lru, ord) \<in> set (accessOrder s) \<and>
           (\<forall>e\<in>set (accessOrder s). fst e \<noteq> lru \<longrightarrow> ord < snd e) \<and>
           evictLeastUsed s = (if lru \<noteq> [] then snd (mc_delete lru s) else s)"
proof -
  have "accessOrder s \<noteq> []" using wf_lengths[OF wf] ne by auto
  from lru_scan[OF this] obtain k ord where
    r: "foldl lru_step (None, None) (accessOrder s) = (Some k, Some ord)"
       "(k, ord) \<in> set (accessOrder s)" "\<forall>e\<in>set (accessOrder s). ord \<le> snd e"
    by blast
  have strict: "\<forall>e\<in>set (accessOrder s). fst e \<noteq> k \<longrightarrow> ord < snd e"
  proof (intro ballI impI)
    fix e assume e: "e \<in> set (accessOrder s)" and nk: "fst e \<noteq> k"
    have d: "distinct (map snd (accessOrder s))" using wf by (simp add: mc_wf_def)
    have "snd e \<noteq> ord"
    proof
      assume "snd e = ord"
      then have "snd e = snd (k, ord)" by simp
      with d e r(2) have "e = (k, ord)" by (meson distinct_map inj_onD)
      with nk show False by simp
    qed
    with r(3) e show "ord < snd e" by fastforce
  qed
  have "evictLeastUsed s = (if k \<noteq> [] then snd (mc_delete k s) else s)"
    by (simp add: evictLeastUsed_def r(1))
  with r(2) strict show ?thesis by blast
qed

lemma shrinks_refl: "shrinks s s"
  by (simp add: shrinks_def)

lemma shrinks_trans: "shrinks s s' \<Longrightarrow> shrinks s' s'' \<Longrightarrow> shrinks s s''"
  unfolding shrinks_def by (metis order_trans)

lemma shrinks_delete: "shrinks s (snd (mc_delete k s))"
  by (auto simp: shrinks_def mc_delete_def length_delete_le keys_delete)

lemma shrinks_deletes: "shrinks s (foldl (\<lambda>s' key. snd (mc_delete key s')) s ks)"
proof (induction ks arbitrary: s)
  case Nil
  then show ?case by (simp add: shrinks_refl)
next
  case (Cons k ks)
  from shrinks_trans[OF shrinks_delete[of s k] Cons.IH[of "snd (mc_delete k s)"]]
  show ?case by simp
qed

lemma cap_inv_shrinks: "cap_inv n s \<Longrightarrow> shrinks s s' \<Longrightarrow> mc_wf s' \<Longrightarrow> cap_inv n s'"
  by (auto simp: cap_inv_def shrinks_def)

lemma cap_inv_new: "0 \<le> maxSize cfg \<Longrightarrow> cap_inv (maxSize cfg) (newMemoryCache cfg)"
  by (simp add: cap_inv_def mc_wf_new) (simp add: newMemoryCache_def)

lemma cap_inv_get: "cap_inv n s \<Longrightarrow> cap_inv n (snd (mc_get now k s))"
proof -
  assume inv: "cap_inv n s"
  then have wf: "mc_wf (snd (mc_get now k s))" by (simp add: cap_inv_def mc_wf_get)
  show ?thesis
  proof (cases "map_of (cache s) k")
    case None
    with inv show ?thesis by (simp add: mc_get_def cap_inv_def mc_wf_stats)
  next
    case (Some item)
    then have mem: "k \<in> fst ` set (cache s)" by (rule map_of_mem_keys)
    show ?thesis
    proof (cases "isExpired now item")
      case True
      have "shrinks s (snd (mc_get now k s))"
        using Some True shrinks_delete[of s k] by (simp add: mc_get_def Let_def shrinks_def)
      from cap_inv_shrinks[OF inv this wf] show ?thesis .
    next
      case False
      with Some mem inv wf show ?thesis
        by (auto simp: mc_get_def cap_inv_def length_update dom_update)
    qed
  qed
qed

lemma cap_inv_set:
  assumes inv: "cap_inv n s" and n: "1 \<le> n" and k: "k \<noteq> []"
  shows "cap_inv n (mc_set now k v ttl s)"
proof -
  let ?s1 = "if int (length (cache s)) \<ge> maxSize (config s) then evictLeastUsed s else s"
  from inv have wf: "mc_wf s" and cfg: "maxSize (config s) = n"
    and le: "int (length (cache s)) \<le> n" and ne: "[] \<notin> fst ` set (cache s)"
    by (simp_all add: cap_inv_def)
  have s1: "length (cache ?s1) < nat n \<and> fst ` set (cache ?s1) \<subseteq> fst ` set (cache s) \<and>
            config ?s1 = config s"
  proof (cases "int (length (cache s)) \<ge> maxSize (config s)")
    case False
    with cfg show ?thesis by auto
  next
    case True
    with cfg le n have len: "int (length (cache s)) = n" and nonempty: "cache s \<noteq> []" by auto
    from evict_lru[OF wf nonempty] obtain lru ord where
      l: "(lru, ord) \<in> set (accessOrder s)"
         "evictLeastUsed s = (if lru \<noteq> [] then snd (mc_delete lru s) else s)"
      by blast
    from l(1) have "lru \<in> fst ` set (accessOrder s)" by force
    with wf have mem: "lru \<in> fst ` set (cache s)" by (simp add: mc_wf_def)
    with ne have "lru \<noteq> []" by blast
    with l(2) have ev: "evictLeastUsed s = snd (mc_delete lru s)" by simp
    have "Suc (length (AList.delete lru (cache s))) = length (cache s)"
      using wf mem by (intro length_delete_distinct) (simp_all add: mc_wf_def)
    with len True ev show ?thesis
      by (auto simp: mc_delete_def keys_delete)
  qed
  have wf': "mc_wf (mc_set now k v ttl s)" using wf by (rule mc_wf_set)
  have c: "cache (mc_set now k v ttl s) =
        AList.update k \<lparr>item_key = k, item_value = v,
           item_ttl = effective_ttl ttl (cfg_ttl (config s)),
           createdAt = now, accessCount = 1, lastAccessed = now\<rparr> (cache ?s1)"
    by (simp add: mc_set_def Let_def effective_ttl_def)
  have "length (cache (mc_set now k v ttl s)) \<le> Suc (length (cache ?s1))"
    unfolding c by (simp add: length_update)
  with s1 have len': "int (length (cache (mc_set now k v ttl s))) \<le> n" by linarith
  have keys': "fst ` set (cache (mc_set now k v ttl s)) = insert k (fst ` set (cache ?s1))"
    unfolding c by (simp add: dom_update)
  have ne': "[] \<notin> fst ` set (cache (mc_set now k v ttl s))"
    unfolding keys' using s1 ne k by blast
  from wf' len' ne' cfg show ?thesis by (simp add: cap_inv_def config_set)
qed

lemma cap_inv_step:
  "cap_inv n s \<Longrightarrow> 1 \<le> n \<Longrightarrow> nonempty_key (snd c) \<Longrightarrow> cap_inv n (mc_step s c)"
proof (cases c)
  case (Pair now call)
  assume inv: "cap_inv n s" and n: "1 \<le> n" and ne: "nonempty_key (snd c)"
  then have wf: "mc_wf s" by (simp add: cap_inv_def)
  show ?thesis
  proof (cases call)
    case (Get k)
    with inv show ?thesis by (simp add: Pair cap_inv_get)
  next
    case (Set k v ttl)
    with ne Pair have "k \<noteq> []" by simp
    with inv n show ?thesis by (simp add: Pair Set cap_inv_set)
  next
    case (Delete k)
    from cap_inv_shrinks[OF inv shrinks_delete mc_wf_delete[OF wf]]
    show ?thesis by (simp add: Pair Delete)
  next
    case (Has k)
    with inv show ?thesis by (simp add: Pair)
  next
    case Clear
    have "shrinks s (mc_clear s)" by (simp add: shrinks_def mc_clear_def)
    from cap_inv_shrinks[OF inv this mc_wf_clear] show ?thesis by (simp add: Pair Clear)
  next
    case Sweep
    have "shrinks s (cleanupExpired now s)"
      by (simp add: cleanupExpired_def Let_def shrinks_deletes)
    from cap_inv_shrinks[OF inv this mc_wf_sweep[OF wf]] show ?thesis by (simp add: Pair Sweep)
  qed
qed

lemma cap_inv_run:
  "cap_inv n s \<Longrightarrow> 1 \<le> n \<Longrightarrow> list_all (\<lambda>c. nonempty_key (snd c)) calls \<Longrightarrow>
   cap_inv n (mc_run s calls)"
  unfolding mc_run_def
  by (induction calls arbitrary: s) (simp_all add: cap_inv_step)

lemma capacity_never_exceeded:
  "1 \<le> maxSize cfg \<Longrightarrow> list_all (\<lambda>c. nonempty_key (snd c)) calls \<Longrightarrow>
   int (length (cache (mc_run (newMemoryCache cfg) calls))) \<le> maxSize cfg"
  using cap_inv_run[OF cap_inv_new, of cfg calls] by (simp add: cap_inv_def)

subsection \<open>Insertion at capacity\<close>

lemma set_at_capacity:
  assumes wf: "mc_wf s" and ne: "[] \<notin> fst ` set (cache s)" and nonempty: "cache s \<noteq> []"
    and full: "maxSize (config s) \<le> int (length (cache s))"
  shows "\<exists>lru ord. (lru, ord) \<in> set (accessOrder s) \<and>
           (\<forall>e\<in>set (accessOrder s). fst e \<noteq> lru \<longrightarrow> ord < snd e) \<and>
           fst ` set (cache (mc_set now k v ttl s)) = insert k (fst ` set (cache s) - {lru})"
proof -
  from evict_lru[OF wf nonempty] obtain lru ord where
    l: "(lru, ord) \<in> set (accessOrder s)"
       "\<forall>e\<in>set (accessOrder s). fst e \<noteq> lru \<longrightarrow> ord < snd e"
       "evictLeastUsed s = (if lru \<noteq> [] then snd (mc_delete lru s) else s)"
    by blast
  from l(1) have "lru \<in> fst ` set (accessOrder s)" by force
  with wf have mem: "lru \<in> fst ` set (cache s)" by (simp add: mc_wf_def)
  with ne have "lru \<noteq> []" by blast
  with l(3) have ev: "evictLeastUsed s = snd (mc_delete lru s)" by simp
  have "fst ` set (cache (mc_set now k v ttl s)) = insert k (fst ` set (cache (evictLeastUsed s)))"
    using full by (simp add: mc_set_def Let_def dom_update)
  then have "fst ` set (cache (mc_set now k v ttl s)) = insert k (fst ` set (cache s) - {lru})"
    by (simp add: ev mc_delete_def keys_delete)
  with l(1,2) show ?thesis by blast
qed

lemma touched_is_newest:
  "map_of (accessOrder (mc_set now k v ttl s)) k = Some (accessCounter (mc_set now k v ttl s))"
  by (simp add: mc_set_def Let_def update_conv')

lemma get_hit:
  assumes "map_of (cache s) k = Some it" and "\<not> isExpired now it"
  shows "fst (mc_get now k s) = Some (item_value it) \<and>
         map_of (cache (snd (mc_get now k s))) k =
           Some (it\<lparr>accessCount := accessCount it + 1, lastAccessed := now\<rparr>) \<and>
         map_of (accessOrder (snd (mc_get now k s))) k = Some (accessCounter (snd (mc_get now k s))) \<and>
         accessCounter (snd (mc_get now k s)) = accessCounter s + 1 \<and>
         config (snd (mc_get now k s)) = config s"
  using assms by (simp add: mc_get_def update_conv')

lemma lru_scan_keeps_min:
  "\<forall>e\<in>set ao. o0 \<le> snd e \<Longrightarrow> foldl lru_step (Some k0, Some o0) ao = (Some k0, Some o0)"
  by (induction ao) (auto simp: lru_step_def)

lemma zip_snoc:
  "length xs = length ys \<Longrightarrow> zip (xs @ [x]) (ys @ [y]) = zip xs ys @ [(x, y)]"
  by simp

lemma mc_run_append: "mc_run s (xs @ ys) = mc_run (mc_run s xs) ys"
  by (simp add: mc_run_def)

lemma set_calls_snoc:
  "set_calls (es @ [(now, k, v, ttl)]) = set_calls es @ [(now, Set k v ttl)]"
  by (simp add: set_calls_def)

lemma entry_keys_snoc: "entry_keys (es @ [(now, k, v, ttl)]) = entry_keys es @ [k]"
  by (simp add: entry_keys_def)

lemma map_fst_zip_upt: "length ks = n \<Longrightarrow> map fst (zip ks (map Suc [0..<n])) = ks"
  by (simp add: map_fst_zip)

lemma fill_below:
  "distinct (entry_keys es) \<Longrightarrow> int (length es) \<le> maxSize cfg \<Longrightarrow>
   map fst (cache (mc_run (newMemoryCache cfg) (set_calls es))) = entry_keys es \<and>
   accessOrder (mc_run (newMemoryCache cfg) (set_calls es)) =
     zip (entry_keys es) (map Suc [0..<length es]) \<and>
   accessCounter (mc_run (newMemoryCache cfg) (set_calls es)) = length es \<and>
   config (mc_run (newMemoryCache cfg) (set_calls es)) = cfg"
proof (induction es rule: rev_induct)
  case Nil
  then show ?case by (simp add: set_calls_def entry_keys_def mc_run_def newMemoryCache_def)
next
  case (snoc e es)
  obtain now k v ttl where e: "e = (now, k, v, ttl)" by (cases e) auto
  let ?s = "mc_run (newMemoryCache cfg) (set_calls es)"
  from snoc.prems have d: "distinct (entry_keys es)" and fresh: "k \<notin> set (entry_keys es)"
    and lt: "int (length es) < maxSize cfg"
    by (simp_all add: e entry_keys_snoc)
  from snoc.IH[OF d] lt have ih:
    "map fst (cache ?s) = entry_keys es"
    "accessOrder ?s = zip (entry_keys es) (map Suc [0..<length es])"
    "accessCounter ?s = length es" "config ?s = cfg"
    by simp_all
  have len: "length (cache ?s) = length es"
    using ih(1) by (metis length_map entry_keys_def)
  have lk: "length (entry_keys es) = length es" by (simp add: entry_keys_def)
  have fc: "k \<notin> fst ` set (cache ?s)" using fresh ih(1) by (metis list.set_map)
  have fa: "k \<notin> fst ` set (accessOrder ?s)"
    using fresh ih(2) lk by (metis list.set_map map_fst_zip_upt)
  have run: "mc_run (newMemoryCache cfg) (set_calls (es @ [e])) = mc_set now k v ttl ?s"
    by (simp add: e set_calls_snoc mc_run_append) (simp add: mc_run_def)
  have noev: "\<not> maxSize (config ?s) \<le> int (length (cache ?s))" using lt len ih(4) by simp
  have c: "map fst (cache (mc_set now k v ttl ?s)) = entry_keys es @ [k]"
    using noev fc ih(1) by (simp add: mc_set_def Let_def update_fresh)
  have a: "accessOrder (mc_set now k v ttl ?s) =
             zip (entry_keys es @ [k]) (map Suc [0..<length es] @ [Suc (length es)])"
    using noev fa ih(2,3) lk by (simp add: mc_set_def Let_def update_fresh)
  have n: "accessCounter (mc_set now k v ttl ?s) = Suc (length es)"
    using noev ih(3) by (simp add: mc_set_def Let_def)
  from c a n ih(4) show ?case
    unfolding run by (simp add: e entry_keys_snoc config_set)
qed

lemma delete_head_keys:
  "map fst al = k # ks \<Longrightarrow> k \<notin> set ks \<Longrightarrow> map fst (AList.delete k al) = ks"
  by (simp add: delete_keys)

lemma fill_over:
  assumes keys: "map fst (cache s) = k1 # ks"
    and ao: "accessOrder s = zip (k1 # ks) (map Suc [0..<Suc (length ks)])"
    and full: "maxSize (config s) \<le> int (Suc (length ks))"
    and d: "distinct (k1 # ks)" and ne: "k1 \<noteq> []" and fresh: "k \<notin> set (k1 # ks)"
  shows "map fst (cache (mc_set now k v ttl s)) = ks @ [k]"
proof -
  have upt: "[0..<Suc (length ks)] = 0 # [Suc 0..<Suc (length ks)]"
    by (simp add: upt_conv_Cons del: upt_Suc)
  have ao': "accessOrder s = (k1, Suc 0) # zip ks (map Suc [Suc 0..<Suc (length ks)])"
    unfolding ao upt by simp
  have "\<forall>e\<in>set (zip ks (map Suc [Suc 0..<Suc (length ks)])). Suc 0 \<le> snd e"
    by (auto dest!: set_zip_rightD)
  then have scan: "foldl lru_step (None, None) (accessOrder s) = (Some k1, Some (Suc 0))"
    unfolding ao' by (simp add: lru_step_def lru_scan_keeps_min)
  have ev: "evictLeastUsed s = snd (mc_delete k1 s)"
    using ne by (simp add: evictLeastUsed_def scan)
  have len: "length (cache s) = Suc (length ks)" using keys by (metis length_Cons length_map)
  have "map fst (cache (evictLeastUsed s)) = ks"
    using keys d by (simp add: ev mc_delete_def delete_head_keys)
  moreover have "cache (mc_set now k v ttl s) =
        AList.update k \<lparr>item_key = k, item_value = v,
           item_ttl = effective_ttl ttl (cfg_ttl (config s)),
           createdAt = now, accessCount = 1, lastAccessed = now\<rparr> (cache (evictLeastUsed s))"
    using full len by (simp add: mc_set_def Let_def effective_ttl_def)
  moreover have "k \<notin> fst ` set (cache (evictLeastUsed s))"
    using fresh calculation(1) by (metis list.set_map list.set_intros(2))
  ultimately show ?thesis by (simp add: update_fresh)
qed

lemma fill_one_more:
  assumes n: "1 \<le> maxSize cfg" and len: "int (length es) = maxSize cfg + 1"
    and d: "distinct (entry_keys es)" and ne: "[] \<notin> set (entry_keys es)"
  shows "map fst (cache (mc_run (newMemoryCache cfg) (set_calls es))) = tl (entry_keys es)"
proof -
  from n len have "es \<noteq> []" by auto
  then obtain es' e where es: "es = es' @ [e]" by (metis rev_exhaust)
  obtain now k v ttl where e: "e = (now, k, v, ttl)" by (cases e) auto
  let ?s = "mc_run (newMemoryCache cfg) (set_calls es')"
  from len es have len': "int (length es') = maxSize cfg" by simp
  from d es e have d': "distinct (entry_keys es')" and fresh: "k \<notin> set (entry_keys es')"
    by (simp_all add: entry_keys_snoc)
  from fill_below[OF d'] len' have fb:
    "map fst (cache ?s) = entry_keys es'"
    "accessOrder ?s = zip (entry_keys es') (map Suc [0..<length es'])"
    "config ?s = cfg"
    by simp_all
  have lk: "length (entry_keys es') = length es'" by (simp add: entry_keys_def)
  from n len' lk obtain k1 ks where ks: "entry_keys es' = k1 # ks"
    by (cases "entry_keys es'") auto
  with lk have l2: "length es' = Suc (length ks)" by simp
  have run: "mc_run (newMemoryCache cfg) (set_calls es) = mc_set now k v ttl ?s"
    by (simp add: es e set_calls_snoc mc_run_append) (simp add: mc_run_def)
  have "map fst (cache (mc_set now k v ttl ?s)) = ks @ [k]"
  proof (rule fill_over[where ?k1.0 = k1])
    show "map fst (cache ?s) = k1 # ks" using fb(1) ks by simp
    show "accessOrder ?s = zip (k1 # ks) (map Suc [0..<Suc (length ks)])"
      using fb(2) ks l2 by (simp del: upt_Suc)
    show "maxSize (config ?s) \<le> int (Suc (length ks))" using fb(3) len' l2 by simp
    show "distinct (k1 # ks)" using d' ks by simp
    show "k1 \<noteq> []" using ne es e ks by (auto simp: entry_keys_snoc)
    show "k \<notin> set (k1 # ks)" using fresh ks by simp
  qed
  then show ?thesis unfolding run by (simp add: es e entry_keys_snoc ks)
qed

subsection \<open>A key that is read before every insert\<close>

lemma all_same_key_short:
  "distinct (map fst ao) \<Longrightarrow> \<forall>e\<in>set ao. fst e = k \<Longrightarrow> length ao \<le> 1"
proof (cases ao)
  case Nil
  then show ?thesis by simp
next
  case (Cons a rest)
  assume d: "distinct (map fst ao)" and s: "\<forall>e\<in>set ao. fst e = k"
  show ?thesis
  proof (cases rest)
    case Nil
    with Cons show ?thesis by simp
  next
    case (Cons b rest')
    with \<open>ao = a # rest\<close> d s show ?thesis by auto
  qed
qed

lemma set_keeps_newest:
  assumes wf: "mc_wf s" and hot: "map_of (accessOrder s) hot = Some (accessCounter s)"
    and cap: "2 \<le> maxSize (config s)" and k: "k \<noteq> hot"
  shows "map_of (cache (mc_set now k v ttl s)) hot = map_of (cache s) hot"
proof (cases "maxSize (config s) \<le> int (length (cache s))")
  case False
  with k show ?thesis by (simp add: map_of_set)
next
  case True
  with cap have len: "2 \<le> length (cache s)" and nonempty: "cache s \<noteq> []" by auto
  from evict_lru[OF wf nonempty] obtain lru ord where
    l: "(lru, ord) \<in> set (accessOrder s)"
       "\<forall>e\<in>set (accessOrder s). fst e \<noteq> lru \<longrightarrow> ord < snd e"
       "evictLeastUsed s = (if lru \<noteq> [] then snd (mc_delete lru s) else s)"
    by blast
  have dk: "distinct (map fst (accessOrder s))" using wf by (simp add: mc_wf_def)
  have le: "\<forall>e\<in>set (accessOrder s). snd e \<le> accessCounter s"
    using wf by (simp add: mc_wf_def list_all_iff)
  have "lru \<noteq> hot"
  proof
    assume eq: "lru = hot"
    with l(1) dk hot have ord: "ord = accessCounter s" by simp
    have "\<forall>e\<in>set (accessOrder s). fst e = hot"
    proof
      fix e assume e: "e \<in> set (accessOrder s)"
      show "fst e = hot"
      proof (rule ccontr)
        assume "fst e \<noteq> hot"
        with l(2) e eq have "ord < snd e" by simp
        with le e ord show False by fastforce
      qed
    qed
    from all_same_key_short[OF dk this] wf_lengths[OF wf] len show False by simp
  qed
  then have "map_of (cache (evictLeastUsed s)) hot = map_of (cache s) hot"
    by (simp add: l(3) mc_delete_def)
  with k True show ?thesis by (simp add: map_of_set)
qed

lemma hot_inv_step:
  assumes inv: "hot_inv hot it s" and fresh: "\<not> isExpired tget it" and k: "k \<noteq> hot"
  shows "hot_inv hot it (mc_set tset k v ttl (snd (mc_get tget hot s)))"
proof -
  from inv obtain it' where
    i: "mc_wf s" "2 \<le> maxSize (config s)" "map_of (cache s) hot = Some it'"
       "createdAt it' = createdAt it" "item_ttl it' = item_ttl it"
    by (auto simp: hot_inv_def)
  from fresh i(4,5) have f': "\<not> isExpired tget it'" by (simp add: isExpired_def)
  let ?s1 = "snd (mc_get tget hot s)"
  note g = get_hit[OF i(3) f']
  have wf1: "mc_wf ?s1" using i(1) by (rule mc_wf_get)
  have cap1: "2 \<le> maxSize (config ?s1)" using g i(2) by simp
  have "map_of (cache (mc_set tset k v ttl ?s1)) hot = map_of (cache ?s1) hot"
    using wf1 _ cap1 k by (rule set_keeps_newest) (simp add: g)
  with g have "map_of (cache (mc_set tset k v ttl ?s1)) hot =
      Some (it'\<lparr>accessCount := accessCount it' + 1, lastAccessed := tget\<rparr>)"
    by simp
  with i(4,5) cap1 mc_wf_set[OF wf1] show ?thesis
    by (simp add: hot_inv_def config_set)
qed

lemma hot_inv_run:
  "hot_inv hot it s \<Longrightarrow>
   list_all (\<lambda>(tget, tset, key, v, ttl). \<not> isExpired tget it \<and> key \<noteq> hot) steps \<Longrightarrow>
   hot_inv hot it (mc_run s (hot_calls hot steps))"
proof (induction steps arbitrary: s)
  case Nil
  then show ?case by (simp add: hot_calls_def mc_run_def)
next
  case (Cons st steps)
  obtain tget tset k v ttl where st: "st = (tget, tset, k, v, ttl)" by (cases st) auto
  have run: "mc_run s (hot_calls hot (st # steps)) =
      mc_run (mc_set tset k v ttl (snd (mc_get tget hot s))) (hot_calls hot steps)"
    by (simp add: hot_calls_def st mc_run_def)
  from Cons.prems st have "hot_inv hot it (mc_set tset k v ttl (snd (mc_get tget hot s)))"
    by (intro hot_inv_step) simp_all
  from Cons.IH[OF this] Cons.prems show ?case unfolding run by simp
qed

lemma hot_key_survives:
  "mc_wf s \<Longrightarrow> 2 \<le> maxSize (config s) \<Longrightarrow> map_of (cache s) hot = Some it \<Longrightarrow>
   list_all (\<lambda>(tget, tset, key, v, ttl). \<not> isExpired tget it \<and> key \<noteq> hot) steps \<Longrightarrow>
   hot \<in> fst ` set (cache (mc_run s (hot_calls hot steps)))"
proof -
  assume a: "mc_wf s" "2 \<le> maxSize (config s)" "map_of (cache s) hot = Some it"
    "list_all (\<lambda>(tget, tset, key, v, ttl). \<not> isExpired tget it \<and> key \<noteq> hot) steps"
  then have "hot_inv hot it s" by (simp add: hot_inv_def)
  from hot_inv_run[OF this a(4)] show ?thesis
    by (auto simp: hot_inv_def intro: map_of_mem_keys)
qed

subsection \<open>The capacity and eviction claim\<close>

text \<open>
  C4, as the claim states it, fails for small capacities. With capacity 1, inserting the
  key \<open>a\<close>, reading it (a hit, so it is the most recently used key) and inserting \<open>b\<close>
  evicts \<open>a\<close>: a cache of capacity 1 cannot keep a hot key across the insertion of another
  one. With capacity 0, a \<open>set\<close> still stores its entry, so the cache holds 1 entry.
\<close>

theorem c4_counterexample:
  "map fst (cache (mc_run (newMemoryCache (ex_cfg_cap 1))
      [(0, Set ''a'' (1::nat) None), (1, Get ''a''), (2, Set ''b'' 2 None)])) = [''b''] \<and>
   fst (mc_get 1 ''a'' (mc_run (newMemoryCache (ex_cfg_cap 1)) [(0, Set ''a'' (1::nat) None)])) = Some 1 \<and>
   length (cache (mc_set 0 ''a'' (1::nat) None (newMemoryCache (ex_cfg_cap 0)))) = 1 \<and>
   maxSize (config (mc_set 0 ''a'' (1::nat) None (newMemoryCache (ex_cfg_cap 0)))) = 0"
  by code_simp

text \<open>
  The test \<open>if (lruKey)\<close> of \<open>evictLeastUsed\<close> is false for the empty string: when the
  least recently used key is the empty string nothing is evicted, and a cache of capacity 1
  ends with 2 entries. The statements below therefore speak of caches whose keys are
  non-empty.
\<close>

lemma evict_skips_empty_key:
  "map fst (cache (mc_run (newMemoryCache (ex_cfg_cap 1))
      [(0, Set [] (1::nat) None), (1, Set ''a'' 2 None)])) = [[], ''a'']"
  by code_simp

text \<open>
  C4, amended. For a cache of capacity at least 1 whose \<open>set\<close> keys are non-empty strings:
  after any list of \<open>get\<close>, \<open>set\<close>, \<open>delete\<close>, \<open>has\<close>, \<open>clear\<close> and sweep calls on a new
  cache the number of entries is at most the capacity, and the cache is well formed (the
  access orders are distinct and none exceeds the counter). A \<open>set\<close> on a non-empty cache
  that is at capacity evicts exactly one entry, the one with the smallest access order,
  before it stores its own; \<open>set\<close> and a \<open>get\<close> that hits give their key the newest access
  order. Inserting capacity + 1 distinct keys into a new cache with no reads in between
  leaves exactly the keys after the first, in insertion order. With capacity at least 2, a
  stored key that is read with a hit before every insert of another key is never evicted.
\<close>

theorem c4_lru_capacity:
  "(1 \<le> maxSize cfg \<and> list_all (\<lambda>c. nonempty_key (snd c)) calls \<longrightarrow>
      int (length (cache (mc_run (newMemoryCache cfg) calls))) \<le> maxSize cfg \<and>
      mc_wf (mc_run (newMemoryCache cfg) calls)) \<and>
   (mc_wf s \<and> [] \<notin> fst ` set (cache s) \<and> cache s \<noteq> [] \<and>
    maxSize (config s) \<le> int (length (cache s)) \<longrightarrow>
      (\<exists>lru ord. (lru, ord) \<in> set (accessOrder s) \<and>
         (\<forall>e\<in>set (accessOrder s). fst e \<noteq> lru \<longrightarrow> ord < snd e) \<and>
         fst ` set (cache (mc_set now k v ttl s)) = insert k (fst ` set (cache s) - {lru}))) \<and>
   map_of (accessOrder (mc_set now k v ttl s)) k = Some (accessCounter (mc_set now k v ttl s)) \<and>
   (map_of (cache s) k = Some it \<and> \<not> isExpired now it \<longrightarrow>
      map_of (accessOrder (snd (mc_get now k s))) k = Some (accessCounter (snd (mc_get now k s)))) \<and>
   (1 \<le> maxSize cfg \<and> int (length es) = maxSize cfg + 1 \<and> distinct (entry_keys es) \<and>
    [] \<notin> set (entry_keys es) \<longrightarrow>
      map fst (cache (mc_run (newMemoryCache cfg) (set_calls es))) = tl (entry_keys es)) \<and>
   (mc_wf sh \<and> 2 \<le> maxSize (config sh) \<and> map_of (cache sh) hot = Some hit \<and>
    list_all (\<lambda>(tget, tset, key, v, ttl). \<not> isExpired tget hit \<and> key \<noteq> hot) steps \<longrightarrow>
      hot \<in> fst ` set (cache (mc_run sh (hot_calls hot steps))))"
proof (intro conjI impI)
  assume h: "1 \<le> maxSize cfg \<and> list_all (\<lambda>c. nonempty_key (snd c)) calls"
  then show "int (length (cache (mc_run (newMemoryCache cfg) calls))) \<le> maxSize cfg"
    by (simp add: capacity_never_exceeded)
  show "mc_wf (mc_run (newMemoryCache cfg) calls)"
    by (simp add: mc_wf_run mc_wf_new)
next
  assume "mc_wf s \<and> [] \<notin> fst ` set (cache s) \<and> cache s \<noteq> [] \<and>
    maxSize (config s) \<le> int (length (cache s))"
  then show "\<exists>lru ord. (lru, ord) \<in> set (accessOrder s) \<and>
         (\<forall>e\<in>set (accessOrder s). fst e \<noteq> lru \<longrightarrow> ord < snd e) \<and>
         fst ` set (cache (mc_set now k v ttl s)) = insert k (fst ` set (cache s) - {lru})"
    using set_at_capacity[of s now k v ttl] by blast
next
  show "map_of (accessOrder (mc_set now k v ttl s)) k = Some (accessCounter (mc_set now k v ttl s))"
    by (rule touched_is_newest)
next
  assume "map_of (cache s) k = Some it \<and> \<not> isExpired now it"
  then show "map_of (accessOrder (snd (mc_get now k s))) k = Some (accessCounter (snd (mc_get now k s)))"
    using get_hit[of s k it now] by blast
next
  assume "1 \<le> maxSize cfg \<and> int (length es) = maxSize cfg + 1 \<and> distinct (entry_keys es) \<and>
    [] \<notin> set (entry_keys es)"
  then show "map fst (cache (mc_run (newMemoryCache cfg) (set_calls es))) = tl (entry_keys es)"
    using fill_one_more[of cfg es] by blast
next
  assume "mc_wf sh \<and> 2 \<le> maxSize (config sh) \<and> map_of (cache sh) hot = Some hit \<and>
    list_all (\<lambda>(tget, tset, key, v, ttl). \<not> isExpired tget hit \<and> key \<noteq> hot) steps"
  then show "hot \<in> fst ` set (cache (mc_run sh (hot_calls hot steps)))"
    using hot_key_survives[of sh hot hit steps] by blast
qed

theorem c4_lru_capacity_witness:
  "1 \<le> maxSize ex_cfg \<and>
   list_all (\<lambda>c. nonempty_key (snd c))
     [(0::int, Set ''a'' (1::nat) None), (1, Set ''b'' 2 None), (2, Get ''a''), (3, Set ''c'' 3 None)] \<and>
   int (length (cache (mc_run (newMemoryCache ex_cfg)
     [(0, Set ''a'' (1::nat) None), (1, Set ''b'' 2 None), (2, Get ''a''), (3, Set ''c'' 3 None)]))) \<le> maxSize ex_cfg \<and>
   mc_wf ex_full \<and> [] \<notin> fst ` set (cache ex_full) \<and> cache ex_full \<noteq> [] \<and>
   maxSize (config ex_full) \<le> int (length (cache ex_full)) \<and>
   (\<exists>lru ord. (lru, ord) \<in> set (accessOrder ex_full) \<and>
         (\<forall>e\<in>set (accessOrder ex_full). fst e \<noteq> lru \<longrightarrow> ord < snd e) \<and>
         fst ` set (cache (mc_set 5 ''c'' 3 None ex_full)) =
           insert ''c'' (fst ` set (cache ex_full) - {lru})) \<and>
   map fst (cache (mc_set 5 ''c'' 3 None ex_full)) = [''b'', ''c''] \<and>
   int (length [(0::int, ''a'', 1::nat, None :: int option), (1, ''b'', 2, None), (2, ''c'', 3, None)]) =
     maxSize ex_cfg + 1 \<and>
   distinct (entry_keys [(0::int, ''a'', 1::nat, None :: int option), (1, ''b'', 2, None), (2, ''c'', 3, None)]) \<and>
   [] \<notin> set (entry_keys [(0::int, ''a'', 1::nat, None :: int option), (1, ''b'', 2, None), (2, ''c'', 3, None)]) \<and>
   map fst (cache (mc_run (newMemoryCache ex_cfg)
     (set_calls [(0, ''a'', 1::nat, None), (1, ''b'', 2, None), (2, ''c'', 3, None)]))) = [''b'', ''c''] \<and>
   mc_wf (mc_set 0 ''a'' (1::nat) None (newMemoryCache ex_cfg)) \<and>
   2 \<le> maxSize (config (mc_set 0 ''a'' (1::nat) None (newMemoryCache ex_cfg))) \<and>
   map_of (cache (mc_set 0 ''a'' (1::nat) None (newMemoryCache ex_cfg))) ''a'' = Some ex_hot_item \<and>
   list_all (\<lambda>(tget, tset, key, v, ttl). \<not> isExpired tget ex_hot_item \<and> key \<noteq> ''a'')
     [(1::int, 2::int, ''b'', 2::nat, None :: int option), (3, 4, ''c'', 3, None), (5, 6, ''d'', 4, None)] \<and>
   ''a'' \<in> fst ` set (cache (mc_run (mc_set 0 ''a'' (1::nat) None (newMemoryCache ex_cfg))
     (hot_calls ''a'' [(1, 2, ''b'', 2, None), (3, 4, ''c'', 3, None), (5, 6, ''d'', 4, None)])))"
proof -
  note t = c4_lru_capacity[where cfg = ex_cfg
      and calls = "[(0, Set ''a'' (1::nat) None), (1, Set ''b'' 2 None), (2, Get ''a''), (3, Set ''c'' 3 None)]"
      and s = ex_full and now = 5 and k = "''c''" and v = 3 and ttl = None
      and it = "\<lparr>item_key = ''b'', item_value = 2, item_ttl = 1000, createdAt = 1,
                   accessCount = 1, lastAccessed = 1\<rparr>"
      and es = "[(0, ''a'', 1::nat, None), (1, ''b'', 2, None), (2, ''c'', 3, None)]"
      and sh = "mc_set 0 ''a'' (1::nat) None (newMemoryCache ex_cfg)" and hot = "''a''"
      and hit = ex_hot_item
      and steps = "[(1, 2, ''b'', 2, None), (3, 4, ''c'', 3, None), (5, 6, ''d'', 4, None)]"]
  have a1: "1 \<le> maxSize ex_cfg" by (simp add: ex_cfg_def)
  have a2: "list_all (\<lambda>c. nonempty_key (snd c))
     [(0::int, Set ''a'' (1::nat) None), (1, Set ''b'' 2 None), (2, Get ''a''), (3, Set ''c'' 3 None)]"
    by simp
  have b1: "mc_wf ex_full" unfolding ex_full_def by (simp add: mc_wf_run mc_wf_new)
  have b2: "cache ex_full =
     [(''a'', \<lparr>item_key = ''a'', item_value = 1, item_ttl = 1000, createdAt = 0, accessCount = 1, lastAccessed = 0\<rparr>),
      (''b'', \<lparr>item_key = ''b'', item_value = 2, item_ttl = 1000, createdAt = 1, accessCount = 1, lastAccessed = 1\<rparr>)]"
    by code_simp
  have b3: "[] \<notin> fst ` set (cache ex_full)" "cache ex_full \<noteq> []" by (simp_all add: b2)
  have b4: "maxSize (config ex_full) \<le> int (length (cache ex_full))" by code_simp
  have b5: "map fst (cache (mc_set 5 ''c'' 3 None ex_full)) = [''b'', ''c'']" by code_simp
  have c1: "int (length [(0::int, ''a'', 1::nat, None :: int option), (1, ''b'', 2, None), (2, ''c'', 3, None)]) =
     maxSize ex_cfg + 1" by (simp add: ex_cfg_def)
  have c2: "distinct (entry_keys [(0::int, ''a'', 1::nat, None :: int option), (1, ''b'', 2, None), (2, ''c'', 3, None)])"
       "[] \<notin> set (entry_keys [(0::int, ''a'', 1::nat, None :: int option), (1, ''b'', 2, None), (2, ''c'', 3, None)])"
    by (simp_all add: entry_keys_def)
  have d1: "mc_wf (mc_set 0 ''a'' (1::nat) None (newMemoryCache ex_cfg))"
    by (simp add: mc_wf_set mc_wf_new)
  have d2: "2 \<le> maxSize (config (mc_set 0 ''a'' (1::nat) None (newMemoryCache ex_cfg)))"
    by (simp add: config_set newMemoryCache_def ex_cfg_def)
  have d3: "map_of (cache (mc_set 0 ''a'' (1::nat) None (newMemoryCache ex_cfg))) ''a'' = Some ex_hot_item"
    by (simp add: set_then_get newMemoryCache_def ex_cfg_def ex_hot_item_def)
  have d4: "list_all (\<lambda>(tget, tset, key, v, ttl). \<not> isExpired tget ex_hot_item \<and> key \<noteq> ''a'')
     [(1::int, 2::int, ''b'', 2::nat, None :: int option), (3, 4, ''c'', 3, None), (5, 6, ''d'', 4, None)]"
    by (simp add: isExpired_def ex_hot_item_def)
  have r1: "int (length (cache (mc_run (newMemoryCache ex_cfg)
     [(0, Set ''a'' (1::nat) None), (1, Set ''b'' 2 None), (2, Get ''a''), (3, Set ''c'' 3 None)]))) \<le> maxSize ex_cfg"
    using t a1 a2 by blast
  have r2: "\<exists>lru ord. (lru, ord) \<in> set (accessOrder ex_full) \<and>
         (\<forall>e\<in>set (accessOrder ex_full). fst e \<noteq> lru \<longrightarrow> ord < snd e) \<and>
         fst ` set (cache (mc_set 5 ''c'' 3 None ex_full)) =
           insert ''c'' (fst ` set (cache ex_full) - {lru})"
    using t b1 b3 b4 by blast
  have r3: "map fst (cache (mc_run (newMemoryCache ex_cfg)
     (set_calls [(0, ''a'', 1::nat, None), (1, ''b'', 2, None), (2, ''c'', 3, None)]))) =
       tl (entry_keys [(0::int, ''a'', 1::nat, None :: int option), (1, ''b'', 2, None), (2, ''c'', 3, None)])"
    using t a1 c1 c2 by blast
  have r4: "''a'' \<in> fst ` set (cache (mc_run (mc_set 0 ''a'' (1::nat) None (newMemoryCache ex_cfg))
     (hot_calls ''a'' [(1, 2, ''b'', 2, None), (3, 4, ''c'', 3, None), (5, 6, ''d'', 4, None)])))"
    using t d1 d2 d3 d4 by blast
  from r3 have r3': "map fst (cache (mc_run (newMemoryCache ex_cfg)
     (set_calls [(0, ''a'', 1::nat, None), (1, ''b'', 2, None), (2, ''c'', 3, None)]))) = [''b'', ''c'']"
    by (simp add: entry_keys_def)
  from a1 a2 r1 b1 b3 b4 r2 b5 c1 c2 r3' d1 d2 d3 d4 r4 show ?thesis by blast
qed

subsection \<open>Expiry, pattern clearing and warmup\<close>

text \<open>
  C5. An entry set with a ttl of 100 at time \<open>ts\<close> is returned by a \<open>get\<close> at \<open>ts + 50\<close>
  and is absent for a \<open>get\<close> at \<open>ts + 150\<close>. In general the reads \<open>get\<close> and \<open>has\<close> treat a
  stored entry as absent exactly when \<open>now - createdAt > ttl\<close>, whether or not anything
  has removed it. Once an entry is expired at a time \<open>te\<close>, then after any calls (reads,
  deletes, sweeps, clears, sets of other keys) none of which is a \<open>set\<close> of that key, every
  read at a time from \<open>te\<close> on finds it absent; a \<open>set\<close> of the key makes it present again
  (the first statement holds in every state).
\<close>

theorem c5_ttl_expiry:
  "fst (mc_get (ts + 50) ka (mc_set ts ka v (Some 100) sa)) = Some v \<and>
   fst (mc_get (ts + 150) ka (mc_set ts ka v (Some 100) sa)) = None \<and>
   (map_of (cache s) key = Some it \<longrightarrow>
      (fst (mc_get now key s) = None \<longleftrightarrow> now - createdAt it > item_ttl it) \<and>
      (fst (mc_get now key s) = Some (item_value it) \<longleftrightarrow> \<not> now - createdAt it > item_ttl it) \<and>
      (mc_has now key s \<longleftrightarrow> \<not> now - createdAt it > item_ttl it)) \<and>
   (map_of (cache s) key = Some it \<and> te - createdAt it > item_ttl it \<and>
    list_all (\<lambda>c. \<not> is_set_of key (snd c)) calls \<and> te \<le> t \<longrightarrow>
      fst (mc_get t key (mc_run s calls)) = None \<and> \<not> mc_has t key (mc_run s calls))"
proof (intro conjI impI)
  have m: "map_of (cache (mc_set ts ka v (Some 100) sa)) ka =
     Some \<lparr>item_key = ka, item_value = v, item_ttl = 100, createdAt = ts,
           accessCount = 1, lastAccessed = ts\<rparr>"
    by (simp add: set_then_get)
  show "fst (mc_get (ts + 50) ka (mc_set ts ka v (Some 100) sa)) = Some v"
    using reads_of_present[OF m, of "ts + 50"] by simp
  show "fst (mc_get (ts + 150) ka (mc_set ts ka v (Some 100) sa)) = None"
    using reads_of_present[OF m, of "ts + 150"] by simp
next
  assume "map_of (cache s) key = Some it"
  from reads_of_present[OF this, of now]
  show "fst (mc_get now key s) = None \<longleftrightarrow> now - createdAt it > item_ttl it"
       "fst (mc_get now key s) = Some (item_value it) \<longleftrightarrow> \<not> now - createdAt it > item_ttl it"
       "mc_has now key s \<longleftrightarrow> \<not> now - createdAt it > item_ttl it"
    by simp_all
next
  assume h: "map_of (cache s) key = Some it \<and> te - createdAt it > item_ttl it \<and>
    list_all (\<lambda>c. \<not> is_set_of key (snd c)) calls \<and> te \<le> t"
  then have "gone_at te key s" by (simp add: gone_at_def)
  with h have g: "gone_at te key (mc_run s calls)" by (simp add: gone_at_run)
  from gone_at_reads[OF g, of t] h
  show "fst (mc_get t key (mc_run s calls)) = None" "\<not> mc_has t key (mc_run s calls)"
    by simp_all
qed

theorem c5_ttl_expiry_witness:
  "map_of (cache ex_cache) ''k'' = Some ex_item \<and>
   fst (mc_get 50 ''k'' ex_cache) = Some 1 \<and>
   mc_has 50 ''k'' ex_cache \<and>
   101 - createdAt ex_item > item_ttl ex_item \<and>
   list_all (\<lambda>c. \<not> is_set_of ''k'' (snd c)) [(200::int, Get ''x''), (250, Sweep), (260, Has ''k'')] \<and>
   fst (mc_get 300 ''k'' (mc_run ex_cache [(200::int, Get ''x''), (250, Sweep), (260, Has ''k'')])) = None \<and>
   \<not> mc_has 300 ''k'' (mc_run ex_cache [(200::int, Get ''x''), (250, Sweep), (260, Has ''k'')])"
proof -
  have h1: "map_of (cache ex_cache) ''k'' = Some ex_item" by (simp add: ex_cache_def)
  have h2: "101 - createdAt ex_item > item_ttl ex_item" by (simp add: ex_item_def)
  have h3: "list_all (\<lambda>c. \<not> is_set_of ''k'' (snd c)) [(200::int, Get ''x''), (250, Sweep), (260, Has ''k'')]"
    by simp
  note t = c5_ttl_expiry[where ts = 0 and ka = "''k''" and v = "1::nat"
      and sa = "newMemoryCache ex_cfg"
      and s = ex_cache and key = "''k''" and it = ex_item and now = 50
      and te = 101 and t = 300 and calls = "[(200::int, Get ''x''), (250, Sweep), (260, Has ''k'')]"]
  have a: "fst (mc_get 50 ''k'' ex_cache) = Some 1" "mc_has 50 ''k'' ex_cache"
    using t h1 by (simp_all add: ex_item_def)
  have b: "fst (mc_get 300 ''k'' (mc_run ex_cache [(200::int, Get ''x''), (250, Sweep), (260, Has ''k'')])) = None \<and>
   \<not> mc_has 300 ''k'' (mc_run ex_cache [(200::int, Get ''x''), (250, Sweep), (260, Has ''k'')])"
    using t h1 h2 h3 by simp
  from h1 h2 h3 a b show ?thesis by simp
qed



text \<open>
  C9, as the claim states it, fails when the first ttl that is set is 0: for the entries
  \<open>a\<close> with ttl 0 and \<open>b\<close> with ttl 5 the claim's shared ttl is 0, and the cache stores
  both with ttl 5; for the single entry \<open>a\<close> with ttl 0 the claim's shared ttl is 0, and
  the cache stores it with the default 1000.
\<close>

theorem c9_counterexample:
  "cache (l1Cache (cm_warmup 7 [(''a'', 1::nat, Some 0), (''b'', 2, Some 5)] (newCacheManager ex_cfg))) =
     [(''a'', \<lparr>item_key = ''a'', item_value = 1, item_ttl = 5, createdAt = 7, accessCount = 1, lastAccessed = 7\<rparr>),
      (''b'', \<lparr>item_key = ''b'', item_value = 2, item_ttl = 5, createdAt = 7, accessCount = 1, lastAccessed = 7\<rparr>)] \<and>
   spec_shared_ttl [(''a'', 1::nat, Some 0), (''b'', 2, Some 5)] (cfg_ttl ex_cfg) = 0 \<and>
   cache (l1Cache (cm_warmup 7 [(''a'', 1::nat, Some 0)] (newCacheManager ex_cfg))) =
     [(''a'', \<lparr>item_key = ''a'', item_value = 1, item_ttl = 1000, createdAt = 7, accessCount = 1, lastAccessed = 7\<rparr>)] \<and>
   spec_shared_ttl [(''a'', 1::nat, Some 0)] (cfg_ttl ex_cfg) = 0"
  by code_simp

text \<open>
  C9, amended: \<open>warmup\<close> writes all its entries with one shared ttl, the ttl of the first
  entry in list order whose ttl is set and is not 0, or the default ttl of the cache when
  there is none (a ttl of 0 counts as not set, for \<open>warmup\<close> as for \<open>set\<close>). With the
  in-process tier enabled, \<open>warmup\<close> is the batch write of its item map with that ttl, and
  every entry of the list found in the cache afterwards carries that ttl, whatever ttl
  the entry itself asked for.
\<close>

theorem c9_warmup_shared_ttl:
  "enableL1 (cm_config cm) \<Longrightarrow>
     cm_warmup now items cm =
       cm_mset now (item_map items) (Some (shared_ttl items (cfg_ttl (config (l1Cache cm))))) cm \<and>
     (k \<in> fst ` set items \<longrightarrow> map_of (cache (l1Cache (cm_warmup now items cm))) k = Some it \<longrightarrow>
        item_ttl it = shared_ttl items (cfg_ttl (config (l1Cache cm))) \<and> createdAt it = now)"
proof -
  assume en: "enableL1 (cm_config cm)"
  obtain m c where f: "foldl warmup_step ([], None) items = (m, c)"
    by (cases "foldl warmup_step ([], None) items")
  have m: "m = item_map items" using f by (simp add: item_map_def)
  let ?d = "cfg_ttl (config (l1Cache cm))"
  have c: "effective_ttl c ?d = shared_ttl items ?d"
    using warmup_fold_effective[of None "[]" items ?d] f by (simp add: falsy_ttl_def)
  have c': "effective_ttl c ?d = effective_ttl (Some (shared_ttl items ?d)) ?d"
    using c effective_ttl_idem[of c ?d] by simp
  have w: "cm_warmup now items cm = cm_mset now m c cm"
    by (simp add: cm_warmup_def f)
  have eq: "cm_mset now m c cm = cm_mset now m (Some (shared_ttl items ?d)) cm"
    using mset_fold_same[OF c', of now m] by (simp add: cm_mset_def)
  have keys: "fst ` set m = fst ` set items"
    using warmup_fold_fst_keys[of "[]" None items] f by simp
  have ent: "k \<in> fst ` set items \<Longrightarrow> map_of (cache (l1Cache (cm_warmup now items cm))) k = Some it \<Longrightarrow>
        item_ttl it = shared_ttl items ?d \<and> createdAt it = now"
  proof -
    assume k: "k \<in> fst ` set items" and mo: "map_of (cache (l1Cache (cm_warmup now items cm))) k = Some it"
    have "item_ttl it = effective_ttl c ?d \<and> createdAt it = now"
    proof (rule mset_fold_ttl[where K = "{}" and s = "l1Cache cm" and entries = m and k = k])
      show "\<forall>k\<in>{}. \<forall>it. map_of (cache (l1Cache cm)) k = Some it \<longrightarrow>
          item_ttl it = effective_ttl c ?d \<and> createdAt it = now" by simp
      show "k \<in> {} \<union> fst ` set m" using k keys by simp
      show "map_of (cache (foldl (\<lambda>s entry. mc_set now (fst entry) (snd entry) c s) (l1Cache cm) m)) k = Some it"
        using mo en by (simp add: w cm_mset_def)
    qed
    with c show ?thesis by simp
  qed
  from w eq m ent show ?thesis by simp
qed

theorem c9_warmup_shared_ttl_witness:
  "enableL1 (cm_config (newCacheManager ex_cfg :: nat CacheManager)) \<and>
   ''c'' \<in> fst ` set [(''a'', 1::nat, None), (''b'', 2, Some (5::int)), (''c'', 3, Some 9)] \<and>
   map_of (cache (l1Cache (cm_warmup 7 [(''a'', 1::nat, None), (''b'', 2, Some 5), (''c'', 3, Some 9)]
      (newCacheManager ex_cfg)))) ''c'' =
     Some \<lparr>item_key = ''c'', item_value = 3, item_ttl = 5, createdAt = 7, accessCount = 1, lastAccessed = 7\<rparr> \<and>
   shared_ttl [(''a'', 1::nat, None), (''b'', 2, Some 5), (''c'', 3, Some 9)]
     (cfg_ttl (config (l1Cache (newCacheManager ex_cfg :: nat CacheManager)))) = 5"
proof -
  have e: "enableL1 (cm_config (newCacheManager ex_cfg :: nat CacheManager))"
    by (simp add: newCacheManager_def ex_cfg_def)
  have m: "map_of (cache (l1Cache (cm_warmup 7 [(''a'', 1::nat, None), (''b'', 2, Some 5), (''c'', 3, Some 9)]
      (newCacheManager ex_cfg)))) ''c'' =
     Some \<lparr>item_key = ''c'', item_value = 3, item_ttl = 5, createdAt = 7, accessCount = 1, lastAccessed = 7\<rparr>"
    by code_simp
  have k: "''c'' \<in> fst ` set [(''a'', 1::nat, None), (''b'', 2, Some (5::int)), (''c'', 3, Some 9)]" by simp
  note t = c9_warmup_shared_ttl[OF e, where now = 7 and k = "''c''"
      and items = "[(''a'', 1::nat, None), (''b'', 2, Some 5), (''c'', 3, Some 9)]"
      and it = "\<lparr>item_key = ''c'', item_value = 3, item_ttl = 5, createdAt = 7, accessCount = 1, lastAccessed = 7\<rparr>"]
  from t[THEN conjunct2, rule_format, OF k m]
  have "shared_ttl [(''a'', 1::nat, None), (''b'', 2, Some 5), (''c'', 3, Some 9)]
     (cfg_ttl (config (l1Cache (newCacheManager ex_cfg :: nat CacheManager)))) = 5" by simp
  with e k m show ?thesis by blast
qed

section \<open>Properties of the batch operations and of the cross-platform search\<close>

subsection \<open>Every task settles exactly once\<close>

lemma mset_remove_nth:
  "j < length xs \<Longrightarrow> add_mset (xs ! j) (mset (take j xs @ drop (Suc j) xs)) = mset xs"
proof -
  assume j: "j < length xs"
  then have "xs = take j xs @ (xs ! j) # drop (Suc j) xs" by (simp add: id_take_nth_drop)
  then have "mset xs = mset (take j xs @ (xs ! j) # drop (Suc j) xs)" by simp
  then show ?thesis by simp
qed

lemma settle_all_order:
  "\<exists>order. mset order = mset tasks \<and>
     settle_all pick n body tasks a = foldl (\<lambda>a t. body t a) a order"
proof (induction pick n body tasks a rule: settle_all.induct)
  case (1 pick n body tasks a)
  show ?case
  proof (cases "tasks = []")
    case True
    then show ?thesis by (subst settle_all.simps) simp
  next
    case False
    let ?j = "pick n mod length tasks"
    have j: "?j < length tasks" using False by simp
    from "1.IH"[OF False] obtain order where
      o: "mset order = mset (take ?j tasks @ drop (Suc ?j) tasks)"
         "settle_all pick (Suc n) body (take ?j tasks @ drop (Suc ?j) tasks) (body (tasks ! ?j) a) =
            foldl (\<lambda>a t. body t a) (body (tasks ! ?j) a) order"
      by blast
    have "mset ((tasks ! ?j) # order) = mset tasks"
      using o(1) mset_remove_nth[OF j] by simp
    moreover have "settle_all pick n body tasks a = foldl (\<lambda>a t. body t a) a ((tasks ! ?j) # order)"
      using False o(2) by (simp add: settle_all.simps[of pick n body tasks a])
    ultimately show ?thesis by blast
  qed
qed








subsection \<open>Outcomes are recorded by index\<close>













lemma fold_search_task:
  "map_of (foldl (\<lambda>a t. search_task adapters query t a) res order) p =
     (if p \<in> set order \<and> map_of adapters p \<noteq> None
      then map_option (\<lambda>adapter. adapter query) (map_of adapters p)
      else map_of res p)"
proof (induction order arbitrary: res)
  case Nil
  then show ?case by simp
next
  case (Cons t order)
  show ?case
    using Cons.IH[of "search_task adapters query t res"]
    by (auto simp: search_task_def update_conv' split: option.splits)
qed

lemma searchAll_entries:
  "map_of (searchAll adapters pick query platforms) p =
     (if p \<in> set (case platforms of Some ps \<Rightarrow> ps | None \<Rightarrow> map fst adapters)
      then map_option (\<lambda>adapter. adapter query) (map_of adapters p)
      else None)"
proof -
  let ?ts = "case platforms of Some ps \<Rightarrow> ps | None \<Rightarrow> map fst adapters"
  from settle_all_order[of ?ts pick 0 "search_task adapters query" "[]"]
  obtain order where o: "mset order = mset ?ts"
    "settle_all pick 0 (search_task adapters query) ?ts [] =
       foldl (\<lambda>a t. search_task adapters query t a) [] order"
    by blast
  from o(1) have s: "set order = set ?ts" by (rule mset_eq_setD)
  show ?thesis
    unfolding searchAll_def Let_def o(2) fold_search_task s
    by (cases "map_of adapters p") simp_all
qed

subsection \<open>The batch and fan-out claims\<close>







lemma ex_batchRequest:
  "batchRequest (Some 1) (\<lambda>n. n + 1) ex_search [''a'', ''b'', ''c''] =
     Some [Some (Inr 1), Some (Inl ''unavailable''), Some (Inr 3)]"
  by code_simp


text \<open>
  C8. \<open>searchAll\<close> returns a map (the model has no error result: every exception of an
  adapter's \<open>search\<close> is caught and stored), whatever the order in which the searches
  settle. For every platform of the target list that has an adapter the map holds the
  outcome of that adapter's own search, value or error; it holds nothing for any other
  platform. The entry of a platform is a function of its own adapter and the query only,
  so the failure of one provider neither removes nor alters the entry of another.
\<close>

theorem c8_searchAll_isolation:
  "map_of (searchAll adapters pick query platforms) p =
     (if p \<in> set (case platforms of Some ps \<Rightarrow> ps | None \<Rightarrow> map fst adapters)
      then map_option (\<lambda>adapter. adapter query) (map_of adapters p)
      else None)"
  by (rule searchAll_entries)

text \<open>
  A fan-out over three providers of which the second one throws, with the searches
  settling in the order QQ, NETEASE, KUWO; and one over a target list that names a
  platform without adapter.
\<close>

lemma ex_searchAll:
  "searchAll ex_adapters (\<lambda>n. 2) ''song'' None =
     [(QQ, Inr 7), (NETEASE, Inr 4), (KUWO, Inl ''unavailable'')] \<and>
   searchAll ex_adapters (\<lambda>n. 0) ''song'' (Some [KUWO, KUGOU, NETEASE]) =
     [(KUWO, Inl ''unavailable''), (NETEASE, Inr 4)]"
  by code_simp


end
